theory Spec2Isabelle
  imports Complex_Main "HOL-Library.Word" "HOL-Library.Log_Nat"
begin

section \<open>The C++ \<^verbatim>\<open>double\<close>: IEEE 754 binary64\<close>

text \<open>
  The sampler's step sizes and energies are C++ \<^verbatim>\<open>double\<close>s. A \<^verbatim>\<open>double\<close> is modelled
  by its 64 bits: bit 63 is the sign, bits 52 to 62 the biased exponent, bits 0 to 51 the
  fraction. Every bit pattern is a value of the type, NaNs and infinities included, so
  nothing below needs a validity hypothesis.
\<close>

type_synonym double = "64 word"

definition sign_bit :: "double \<Rightarrow> bool" where
  "sign_bit w = (2 ^ 63 \<le> unat w)"

definition biased_exp :: "double \<Rightarrow> nat" where
  "biased_exp w = (unat w div 2 ^ 52) mod 2048"

definition fraction :: "double \<Rightarrow> nat" where
  "fraction w = unat w mod 2 ^ 52"

definition isnan :: "double \<Rightarrow> bool" where
  "isnan w = (biased_exp w = 2047 \<and> fraction w \<noteq> 0)"

definition is_inf :: "double \<Rightarrow> bool" where
  "is_inf w = (biased_exp w = 2047 \<and> fraction w = 0)"

definition is_zero :: "double \<Rightarrow> bool" where
  "is_zero w = (biased_exp w = 0 \<and> fraction w = 0)"

definition is_finite :: "double \<Rightarrow> bool" where
  "is_finite w = (biased_exp w < 2047)"

text \<open>
  The magnitude of a double is \<open>mant w * 2 ^ expo w\<close>: subnormals (biased exponent 0) have
  no hidden bit and the exponent of the smallest normal binade. The same formula gives an
  infinity the magnitude \<open>2 ^ 1024\<close>, above every finite double, so \<open>valof\<close> orders all
  values that are not NaN the way IEEE 754 does.
\<close>

definition mant :: "double \<Rightarrow> nat" where
  "mant w = (if biased_exp w = 0 then fraction w else 2 ^ 52 + fraction w)"

definition expo :: "double \<Rightarrow> int" where
  "expo w = (if biased_exp w = 0 then - 1074 else int (biased_exp w) - 1075)"

definition pow2 :: "int \<Rightarrow> real" where
  "pow2 e = (if 0 \<le> e then 2 ^ nat e else 1 / 2 ^ nat (- e))"

definition valof :: "double \<Rightarrow> real" where
  "valof w = (if sign_bit w then - 1 else 1) * (real (mant w) * pow2 (expo w))"

text \<open>The magnitude in units of the smallest subnormal, \<open>2 ^ - 1074\<close>.\<close>

definition ulps :: "double \<Rightarrow> nat" where
  "ulps w = mant w * 2 ^ nat (expo w + 1074)"

text \<open>The comparison operators of C++ on doubles: false as soon as one side is NaN.\<close>

definition dlt :: "double \<Rightarrow> double \<Rightarrow> bool" where
  "dlt a b = (\<not> isnan a \<and> \<not> isnan b \<and> valof a < valof b)"

definition dgt :: "double \<Rightarrow> double \<Rightarrow> bool" where
  "dgt a b = dlt b a"

definition dle :: "double \<Rightarrow> double \<Rightarrow> bool" where
  "dle a b = (\<not> isnan a \<and> \<not> isnan b \<and> valof a \<le> valof b)"

definition dge :: "double \<Rightarrow> double \<Rightarrow> bool" where
  "dge a b = dle b a"

definition deq :: "double \<Rightarrow> double \<Rightarrow> bool" where
  "deq a b = (\<not> isnan a \<and> \<not> isnan b \<and> valof a = valof b)"

text \<open>
  Rounding to nearest, ties to even, of the exact magnitude \<open>M * 2 ^ E\<close>. The quantum
  exponent \<open>e\<close> is that of the binade of the value, or \<open>- 1074\<close> in the subnormal range;
  the significand \<open>m\<close> is the value in units of \<open>2 ^ e\<close>, rounded. The bit pattern of the
  result is \<open>(e + 1074) * 2 ^ 52 + m\<close>: a significand rounded up to \<open>2 ^ 53\<close> carries into
  the exponent field by itself, and a result at or above the pattern of infinity
  overflows to infinity.
\<close>

definition rne_shift :: "nat \<Rightarrow> nat \<Rightarrow> nat" where
  "rne_shift M k =
     (let quo = M div 2 ^ k; rem = M mod 2 ^ k
      in if 2 ^ k < 2 * rem \<or> (2 * rem = 2 ^ k \<and> odd quo) then quo + 1 else quo)"

definition inf_bits :: nat where
  "inf_bits = 2047 * 2 ^ 52"

definition pack :: "bool \<Rightarrow> nat \<Rightarrow> double" where
  "pack s n = word_of_nat ((if s then 2 ^ 63 else 0) + n)"

definition quantum_exp :: "nat \<Rightarrow> int \<Rightarrow> int" where
  "quantum_exp M E = max (int (floorlog 2 M) + E - 53) (- 1074)"

definition significand :: "nat \<Rightarrow> int \<Rightarrow> nat" where
  "significand M E =
     (let e = quantum_exp M E
      in if e \<le> E then M * 2 ^ nat (E - e) else rne_shift M (nat (e - E)))"

definition round_to_double :: "bool \<Rightarrow> nat \<Rightarrow> int \<Rightarrow> double" where
  "round_to_double s M E =
     (if M = 0 then pack s 0
      else pack s (min (nat (quantum_exp M E + 1074) * 2 ^ 52 + significand M E) inf_bits))"

text \<open>
  An invalid operation (\<open>0 * inf\<close>, \<open>inf - inf\<close>) returns a quiet NaN, and an operation on
  a NaN returns a NaN. Which NaN is left to the platform by IEEE 754; the model returns
  the canonical positive quiet NaN, and nothing below depends on the choice.
\<close>

definition d_nan :: double where
  "d_nan = 0x7FF8000000000000"

definition d_inf :: double where
  "d_inf = 0x7FF0000000000000"

definition d_zero :: double where
  "d_zero = 0"

definition d_one :: double where
  "d_one = 0x3FF0000000000000"

definition d_two :: double where
  "d_two = 0x4000000000000000"

definition d_half :: double where
  "d_half = 0x3FE0000000000000"

definition d_1e7 :: double where
  "d_1e7 = 0x416312D000000000"

text \<open>\<^verbatim>\<open>std::log(0.8)\<close>: the double nearest to \<open>ln 0.8\<close>, \<open>- 0.2231435513142097\<close>.\<close>

definition log_0_8 :: double where
  "log_0_8 = 0xBFCC8FF7C79A9A20"

definition dneg :: "double \<Rightarrow> double" where
  "dneg w = pack (\<not> sign_bit w) (unat w mod 2 ^ 63)"

definition dmul :: "double \<Rightarrow> double \<Rightarrow> double" where
  "dmul a b =
     (if isnan a \<or> isnan b then d_nan
      else if (is_inf a \<and> is_zero b) \<or> (is_zero a \<and> is_inf b) then d_nan
      else if is_inf a \<or> is_inf b then pack (sign_bit a \<noteq> sign_bit b) inf_bits
      else round_to_double (sign_bit a \<noteq> sign_bit b) (mant a * mant b) (expo a + expo b))"

text \<open>
  The exact sum of two finite doubles, as an integer in units of \<open>2 ^ E\<close> for the smaller
  exponent \<open>E\<close>. An exact zero sum is \<open>+0\<close> under round-to-nearest unless both operands
  are negative (\<open>- 0 + - 0 = - 0\<close>).
\<close>

definition signed_mant :: "double \<Rightarrow> int \<Rightarrow> int" where
  "signed_mant w E = (if sign_bit w then - 1 else 1) * (int (mant w) * 2 ^ nat (expo w - E))"

definition dadd :: "double \<Rightarrow> double \<Rightarrow> double" where
  "dadd a b =
     (if isnan a \<or> isnan b then d_nan
      else if is_inf a then (if is_inf b \<and> sign_bit a \<noteq> sign_bit b then d_nan else a)
      else if is_inf b then b
      else
        let E = min (expo a) (expo b);
            S = signed_mant a E + signed_mant b E
        in if S = 0 then pack (sign_bit a \<and> sign_bit b) 0
           else round_to_double (S < 0) (nat \<bar>S\<bar>) E)"

definition dsub :: "double \<Rightarrow> double \<Rightarrow> double" where
  "dsub a b = dadd a (dneg b)"

text \<open>
  Two notions for stating what the arithmetic computes: the signed significand of a
  double, so that its value is \<open>smant w * 2 ^ expo w\<close>, and the value of the double that
  the exact number \<open>S * 2 ^ E\<close> rounds to.
\<close>

definition smant :: "double \<Rightarrow> int" where
  "smant w = (if sign_bit w then - 1 else 1) * int (mant w)"

definition rounded :: "int \<Rightarrow> int \<Rightarrow> real" where
  "rounded S E = valof (round_to_double (S < 0) (nat \<bar>S\<bar>) E)"


section \<open>The phase-space point\<close>

text \<open>
  Modelled from the spec: \<^verbatim>\<open>ps_point.hpp\<close> is not among the sources. The spec's
  PhasePoint holds a position, a momentum and auxiliary bookkeeping; \<^verbatim>\<open>base_hmc::seed\<close>
  names the position \<^verbatim>\<open>q\<close>. The sampler's \<^verbatim>\<open>PointType\<close> is a class derived from
  \<^verbatim>\<open>ps_point\<close>: an extension of the record, whose further fields are its \<open>more\<close> part.
\<close>

record 'b ps_point =
  q :: "double list"
  p :: "double list"
  bookkeeping :: 'b

text \<open>
  \<^verbatim>\<open>ps_point z_init(this->z_)\<close> copy-constructs the base class from the derived point,
  and \<^verbatim>\<open>this->z_.ps_point::operator=(z_init)\<close> assigns the base-class fields only.
\<close>

definition ps_point_copy :: "('b, 'm) ps_point_scheme \<Rightarrow> 'b ps_point" where
  "ps_point_copy pt = \<lparr>q = q pt, p = p pt, bookkeeping = bookkeeping pt\<rparr>"

definition ps_point_assign :: "('b, 'm) ps_point_scheme \<Rightarrow> 'b ps_point \<Rightarrow> ('b, 'm) ps_point_scheme" where
  "ps_point_assign pt src = pt\<lparr>q := q src, p := p src, bookkeeping := bookkeeping src\<rparr>"

section \<open>The sampler \<^verbatim>\<open>base_hmc\<close>\<close>

text \<open>
  The fields of \<^verbatim>\<open>base_hmc\<close>. The objects that the Hamiltonian, the integrator and the
  random number generator read and change (\<^verbatim>\<open>hamiltonian_\<close>, \<^verbatim>\<open>integrator_\<close>, the
  generator behind \<^verbatim>\<open>rand_int_\<close> and \<^verbatim>\<open>rand_uniform_\<close>, and the logger the caller hands
  in) are one component \<open>env\<close>. A class derived from \<^verbatim>\<open>base_hmc\<close> is an extension of the
  record.
\<close>

record ('pt, 'env) base_hmc =
  z :: 'pt
  env :: 'env
  nom_epsilon :: double
  epsilon :: double
  epsilon_jitter :: double

text \<open>
  The template parameters \<^verbatim>\<open>Hamiltonian\<close>, \<^verbatim>\<open>Integrator\<close> and \<^verbatim>\<open>BaseRNG\<close> are not among
  the sources; their operations are parameters of the model. \<^verbatim>\<open>sample_p\<close>, \<^verbatim>\<open>init\<close> and
  \<^verbatim>\<open>evolve\<close> take the point by reference and return nothing: they return the new point
  and the new environment here. \<^verbatim>\<open>H\<close> returns the energy. \<open>rand_uniform\<close> is one call of
  \<^verbatim>\<open>rand_uniform_()\<close>: the draw and the advanced generator.
\<close>

record ('pt, 'env) collaborators =
  sample_p :: "'pt \<Rightarrow> 'env \<Rightarrow> 'pt \<times> 'env"
  hamiltonian_init :: "'pt \<Rightarrow> 'env \<Rightarrow> 'pt \<times> 'env"
  hamiltonian_H :: "'pt \<Rightarrow> 'env \<Rightarrow> double"
  evolve :: "'pt \<Rightarrow> double \<Rightarrow> 'env \<Rightarrow> 'pt \<times> 'env"
  rand_uniform :: "'env \<Rightarrow> double \<times> 'env"

datatype runtime_error = Runtime_error string

definition improper_posterior :: runtime_error where
  "improper_posterior = Runtime_error ''Posterior is improper. Please check your model.''"

definition no_small_stepsize :: runtime_error where
  "no_small_stepsize = Runtime_error
     ''No acceptably small step size could be found. Perhaps the posterior is not continuous?''"

text \<open>
  The sampler as \<^verbatim>\<open>init_stepsize\<close> sees it, its point derived from \<^verbatim>\<open>ps_point\<close>, and the
  two ways the search ends: an exception with the sampler it leaves behind (\<open>Inl\<close>), or
  a return (\<open>Inr\<close>).
\<close>

type_synonym ('b, 'm, 'env, 'd) sampler = "(('b, 'm) ps_point_scheme, 'env, 'd) base_hmc_scheme"

type_synonym ('b, 'm, 'env, 'd) outcome =
  "runtime_error \<times> ('b, 'm, 'env, 'd) sampler + ('b, 'm, 'env, 'd) sampler"

text \<open>
  One probe, lines 89 to 102 and again 109 to 121 of \<^verbatim>\<open>base_hmc.hpp\<close>: resample the
  momentum, initialise the Hamiltonian at the point, take the energy \<open>H0\<close>, evolve one
  step of the nominal size, take the energy \<open>h\<close> with NaN replaced by \<open>+infinity\<close>, and
  return \<open>delta_H = H0 - h\<close> with the sampler as the probe leaves it.
\<close>

definition probe ::
  "('pt, 'env) collaborators \<Rightarrow> ('pt, 'env, 'd) base_hmc_scheme
     \<Rightarrow> double \<times> ('pt, 'env, 'd) base_hmc_scheme" where
  "probe C s =
     (let (z1, e1) = sample_p C (z s) (env s);
          (z2, e2) = hamiltonian_init C z1 e1;
          H0 = hamiltonian_H C z2 e2;
          (z3, e3) = evolve C z2 (nom_epsilon s) e2;
          h = hamiltonian_H C z3 e3;
          h = (if isnan h then d_inf else h);
          delta_H = dsub H0 h
      in (delta_H, s\<lparr>z := z3, env := e3\<rparr>))"

text \<open>
  One pass through the body of \<^verbatim>\<open>while (1)\<close>, lines 107 to 139: it leaves the loop by
  \<^verbatim>\<open>break\<close>, leaves the function by \<^verbatim>\<open>throw\<close>, or goes round again. Each outcome carries
  the sampler as it is at that moment.
\<close>

datatype 's iteration = Break 's | Throw runtime_error 's | Continue 's

definition loop_body ::
  "(('b, 'm) ps_point_scheme, 'env) collaborators \<Rightarrow> 'b ps_point \<Rightarrow> int
     \<Rightarrow> (('b, 'm) ps_point_scheme, 'env, 'd) base_hmc_scheme
     \<Rightarrow> (('b, 'm) ps_point_scheme, 'env, 'd) base_hmc_scheme iteration" where
  "loop_body C z_init direction s =
     (let s0 = s\<lparr>z := ps_point_assign (z s) z_init\<rparr>;
          (delta_H, s1) = probe C s0
      in if direction = 1 \<and> \<not> dgt delta_H log_0_8 then Break s1
         else if direction = - 1 \<and> \<not> dlt delta_H log_0_8 then Break s1
         else
           let s2 = s1\<lparr>nom_epsilon :=
                      (if direction = 1 then dmul d_two (nom_epsilon s1)
                       else dmul d_half (nom_epsilon s1))\<rparr>
           in if dgt (nom_epsilon s2) d_1e7 then Throw improper_posterior s2
              else if deq (nom_epsilon s2) d_zero then Throw no_small_stepsize s2
              else Continue s2)"

text \<open>
  The loop may run forever (a NaN or negative nominal step size is never above \<open>1e7\<close>
  and never reaches 0 by doubling), so its result is an option: \<open>None\<close> is a run that
  does not return. \<open>Inl\<close> is the exception with the sampler it leaves behind, \<open>Inr\<close> the
  sampler at \<^verbatim>\<open>break\<close>.
\<close>

partial_function (option) init_loop ::
  "(('b, 'm) ps_point_scheme, 'env) collaborators \<Rightarrow> 'b ps_point \<Rightarrow> int
     \<Rightarrow> (('b, 'm) ps_point_scheme, 'env, 'd) base_hmc_scheme
     \<Rightarrow> (runtime_error \<times> (('b, 'm) ps_point_scheme, 'env, 'd) base_hmc_scheme
          + (('b, 'm) ps_point_scheme, 'env, 'd) base_hmc_scheme) option" where
  "init_loop C z_init direction s =
     (case loop_body C z_init direction s of
        Break s' \<Rightarrow> Some (Inr s')
      | Throw err s' \<Rightarrow> Some (Inl (err, s'))
      | Continue s' \<Rightarrow> init_loop C z_init direction s')"

definition init_stepsize ::
  "(('b, 'm) ps_point_scheme, 'env) collaborators
     \<Rightarrow> (('b, 'm) ps_point_scheme, 'env, 'd) base_hmc_scheme
     \<Rightarrow> (runtime_error \<times> (('b, 'm) ps_point_scheme, 'env, 'd) base_hmc_scheme
          + (('b, 'm) ps_point_scheme, 'env, 'd) base_hmc_scheme) option" where
  "init_stepsize C s =
     (let z_init = ps_point_copy (z s)
      in if deq (nom_epsilon s) d_zero \<or> dgt (nom_epsilon s) d_1e7 then Some (Inr s)
         else
           let (delta_H, s1) = probe C s;
               direction = (if dgt delta_H log_0_8 then 1 else - 1)
           in case init_loop C z_init direction s1 of
                None \<Rightarrow> None
              | Some (Inl thrown) \<Rightarrow> Some (Inl thrown)
              | Some (Inr s2) \<Rightarrow> Some (Inr (s2\<lparr>z := ps_point_assign (z s2) z_init\<rparr>)))"

text \<open>
  The loop cut off after \<open>n\<close> passes through its body: the result of the loop when it
  ends within \<open>n\<close> passes, \<open>None\<close> when it needs more. A pass that does not \<^verbatim>\<open>break\<close>
  scales the nominal step size once, so an exception within \<open>n\<close> passes is an exception
  within \<open>n\<close> scalings.
\<close>

fun loop_passes ::
  "nat \<Rightarrow> (('b, 'm) ps_point_scheme, 'env) collaborators \<Rightarrow> 'b ps_point \<Rightarrow> int
     \<Rightarrow> (('b, 'm) ps_point_scheme, 'env, 'd) base_hmc_scheme
     \<Rightarrow> (runtime_error \<times> (('b, 'm) ps_point_scheme, 'env, 'd) base_hmc_scheme
          + (('b, 'm) ps_point_scheme, 'env, 'd) base_hmc_scheme) option" where
  "loop_passes 0 C z_init direction s = None"
| "loop_passes (Suc n) C z_init direction s =
     (case loop_body C z_init direction s of
        Break s' \<Rightarrow> Some (Inr s')
      | Throw err s' \<Rightarrow> Some (Inl (err, s'))
      | Continue s' \<Rightarrow> loop_passes n C z_init direction s')"

text \<open>
  Three parts of the loop body by name: the assignment of line 107 that restarts the
  point from \<^verbatim>\<open>z_init\<close>, the condition of lines 123 to 126 under which the loop is left
  by \<^verbatim>\<open>break\<close>, and the new nominal step size of lines 128 and 129.
\<close>

definition restart ::
  "'b ps_point \<Rightarrow> (('b, 'm) ps_point_scheme, 'env, 'd) base_hmc_scheme
     \<Rightarrow> (('b, 'm) ps_point_scheme, 'env, 'd) base_hmc_scheme" where
  "restart z_init s = s\<lparr>z := ps_point_assign (z s) z_init\<rparr>"

definition accepts :: "int \<Rightarrow> double \<Rightarrow> bool" where
  "accepts direction delta_H =
     ((direction = 1 \<and> \<not> dgt delta_H log_0_8) \<or> (direction = - 1 \<and> \<not> dlt delta_H log_0_8))"

definition scaled :: "int \<Rightarrow> double \<Rightarrow> double" where
  "scaled direction eps = (if direction = 1 then dmul d_two eps else dmul d_half eps)"


text \<open>
  The two energies of a probe: \<open>H0\<close> before the step and \<open>h\<close> after it, as the Hamiltonian
  returns them.
\<close>

definition probe_H0 ::
  "('pt, 'env) collaborators \<Rightarrow> ('pt, 'env, 'd) base_hmc_scheme \<Rightarrow> double" where
  "probe_H0 C s =
     (let (z1, e1) = sample_p C (z s) (env s);
          (z2, e2) = hamiltonian_init C z1 e1
      in hamiltonian_H C z2 e2)"

definition probe_h ::
  "('pt, 'env) collaborators \<Rightarrow> ('pt, 'env, 'd) base_hmc_scheme \<Rightarrow> double" where
  "probe_h C s =
     (let (z1, e1) = sample_p C (z s) (env s);
          (z2, e2) = hamiltonian_init C z1 e1;
          (z3, e3) = evolve C z2 (nom_epsilon s) e2
      in hamiltonian_H C z3 e3)"

text \<open>
  \<^verbatim>\<open>update_L_()\<close> calls the method of the derived class on the whole object, so the hook
  is a function on the sampler; it is a parameter, the derived classes not being among the
  sources.
\<close>

definition set_nominal_stepsize ::
  "(('pt, 'env, 'd) base_hmc_scheme \<Rightarrow> ('pt, 'env, 'd) base_hmc_scheme) \<Rightarrow> double
     \<Rightarrow> ('pt, 'env, 'd) base_hmc_scheme \<Rightarrow> ('pt, 'env, 'd) base_hmc_scheme" where
  "set_nominal_stepsize update_L e s =
     update_L (if dgt e d_zero then s\<lparr>nom_epsilon := e\<rparr> else s)"

definition get_nominal_stepsize :: "('pt, 'env, 'd) base_hmc_scheme \<Rightarrow> double" where
  "get_nominal_stepsize s = nom_epsilon s"

definition get_current_stepsize :: "('pt, 'env, 'd) base_hmc_scheme \<Rightarrow> double" where
  "get_current_stepsize s = epsilon s"

definition set_stepsize_jitter ::
  "double \<Rightarrow> ('pt, 'env, 'd) base_hmc_scheme \<Rightarrow> ('pt, 'env, 'd) base_hmc_scheme" where
  "set_stepsize_jitter j s =
     (if dgt j d_zero \<and> dlt j d_one then s\<lparr>epsilon_jitter := j\<rparr> else s)"

definition get_stepsize_jitter :: "('pt, 'env, 'd) base_hmc_scheme \<Rightarrow> double" where
  "get_stepsize_jitter s = epsilon_jitter s"

text \<open>
  \<^verbatim>\<open>if (this->epsilon_jitter_)\<close> converts a double to \<^verbatim>\<open>bool\<close>: false for \<open>+0\<close> and \<open>- 0\<close>,
  true for everything else, NaN included.
\<close>

definition sample_stepsize ::
  "('pt, 'env) collaborators \<Rightarrow> ('pt, 'env, 'd) base_hmc_scheme
     \<Rightarrow> ('pt, 'env, 'd) base_hmc_scheme" where
  "sample_stepsize C s =
     (let s1 = s\<lparr>epsilon := nom_epsilon s\<rparr>
      in if \<not> deq (epsilon_jitter s1) d_zero then
           let (u, e') = rand_uniform C (env s1)
           in s1\<lparr>epsilon :=
                   dmul (epsilon s1)
                     (dadd d_one (dmul (epsilon_jitter s1) (dsub (dmul d_two u) d_one))),
                 env := e'\<rparr>
         else s1)"

text \<open>
  The constructor: the point is built from the model's dimension and the collaborators
  from the model and the generator (here both given), and the three step-size fields take
  their default member initialisers \<^verbatim>\<open>0.1\<close>, \<^verbatim>\<open>0.1\<close> and \<^verbatim>\<open>0.0\<close>.
\<close>

definition d_0_1 :: double where
  "d_0_1 = 0x3FB999999999999A"

definition base_hmc_new :: "'pt \<Rightarrow> 'env \<Rightarrow> ('pt, 'env) base_hmc" where
  "base_hmc_new z0 env0 =
     \<lparr>z = z0, env = env0, nom_epsilon = d_0_1, epsilon = d_0_1, epsilon_jitter = d_zero\<rparr>"

section \<open>The writer \<^verbatim>\<open>io::writer\<close>\<close>

text \<open>
  The two member vectors and the tolerance constant \<^verbatim>\<open>1E-8\<close>. \<^verbatim>\<open>T\<close> is the type
  parameter \<open>'a\<close>; a C++ \<^verbatim>\<open>int\<close> is a 32-bit word.
\<close>

record 'a writer =
  data_r :: "'a list"
  data_i :: "32 word list"
  CONSTRAINT_TOLERANCE :: double


definition push_back :: "'x list \<Rightarrow> 'x \<Rightarrow> 'x list" where
  "push_back xs x = xs @ [x]"




text \<open>The loop \<^verbatim>\<open>for (i = 0; i < y.size(); ++i) data_r_.push_back(y[i])\<close>.\<close>

fun vector_unconstrain :: "'a list \<Rightarrow> 'a writer \<Rightarrow> 'a writer" where
  "vector_unconstrain [] w = w"
| "vector_unconstrain (yi # y) w = vector_unconstrain y (w\<lparr>data_r := push_back (data_r w) yi\<rparr>)"





text \<open>
  A write operation returns (\<open>Inr\<close>) or throws (\<open>Inl\<close>): either the \<^verbatim>\<open>std::runtime_error\<close>
  of the writer itself or what a function of \<^verbatim>\<open>stan::math\<close> threw. Both carry the writer as
  the operation left it.
\<close>

datatype 'e thrown = Runtime runtime_error | Math 'e














































section \<open>Stub collaborators\<close>

text \<open>
  A Hamiltonian and an integrator for tests, as the spec's testable properties use them.
  A fresh momentum is \<open>[1]\<close>; a step replaces the position by the step size and the
  momentum by \<open>[2]\<close>, so an evolved point differs from the start. The energy is \<open>h0\<close> at
  a fresh momentum and \<open>h1\<close> after a step. The environment counts the uniform draws, each
  of which returns \<open>u\<close>.
\<close>

definition stub_point :: "unit ps_point" where
  "stub_point = \<lparr>q = [d_zero], p = [d_zero], bookkeeping = ()\<rparr>"

definition stub_collaborators :: "double \<Rightarrow> double \<Rightarrow> double \<Rightarrow> (unit ps_point, nat) collaborators" where
  "stub_collaborators h0 h1 u =
     \<lparr>sample_p = (\<lambda>pt n. (pt\<lparr>p := [d_one]\<rparr>, n)),
      hamiltonian_init = (\<lambda>pt n. (pt, n)),
      hamiltonian_H = (\<lambda>pt n. if p pt = [d_one] then h0 else h1),
      evolve = (\<lambda>pt eps n. (pt\<lparr>q := [eps], p := [d_two]\<rparr>, n)),
      rand_uniform = (\<lambda>n. (u, Suc n))\<rparr>"

definition stub_sampler :: "double \<Rightarrow> double \<Rightarrow> (unit ps_point, nat) base_hmc" where
  "stub_sampler eps j = (base_hmc_new stub_point 0)\<lparr>nom_epsilon := eps, epsilon_jitter := j\<rparr>"

text \<open>
  A double used in the proofs only: \<open>2 ^ - 53\<close>, half the gap between \<open>1\<close> and the double
  above it, which bounds \<open>1 - j\<close> from below for every double \<open>j < 1\<close>.
\<close>

definition d_2m53 :: double where
  "d_2m53 = 0x3CA0000000000000"

text \<open>The largest double below \<open>1\<close>, \<open>1 - 2 ^ - 53\<close>: a draw close to the upper end.\<close>

definition d_below_one :: double where
  "d_below_one = 0x3FEFFFFFFFFFFFFF"

section \<open>Facts about doubles\<close>

lemmas field_defs = sign_bit_def biased_exp_def fraction_def mant_def expo_def pow2_def

lemma isnan_consts:
  "\<not> isnan d_zero" "\<not> isnan d_one" "\<not> isnan d_two" "\<not> isnan d_half"
  "\<not> isnan d_1e7" "\<not> isnan log_0_8" "\<not> isnan d_inf" "isnan d_nan" "\<not> isnan d_0_1"
  by (simp_all add: isnan_def field_defs d_zero_def d_one_def d_two_def d_half_def d_1e7_def
      log_0_8_def d_inf_def d_nan_def d_0_1_def)

lemma valof_consts:
  "valof d_zero = 0" "valof d_one = 1" "valof d_two = 2" "valof d_half = 1 / 2"
  "valof d_1e7 = 10000000"
  by (simp_all add: valof_def field_defs d_zero_def d_one_def d_two_def d_half_def d_1e7_def)

lemma valof_log_0_8: "valof log_0_8 = - (251237303637201 / 1125899906842624)"
  by (simp add: valof_def field_defs log_0_8_def)

lemma dgt_zero_iff: "dgt e d_zero \<longleftrightarrow> \<not> isnan e \<and> 0 < valof e"
  by (auto simp: dgt_def dlt_def isnan_consts valof_consts)

lemma dlt_one_iff: "dlt j d_one \<longleftrightarrow> \<not> isnan j \<and> valof j < 1"
  by (auto simp: dlt_def isnan_consts valof_consts)

lemma deq_zero_iff: "deq e d_zero \<longleftrightarrow> \<not> isnan e \<and> valof e = 0"
  by (auto simp: deq_def isnan_consts valof_consts)

lemma dgt_1e7_iff: "dgt e d_1e7 \<longleftrightarrow> \<not> isnan e \<and> 10000000 < valof e"
  by (auto simp: dgt_def dlt_def isnan_consts valof_consts)

lemma pow2_powi: "pow2 e = 2 powi e"
  by (simp add: pow2_def power_int_def inverse_eq_divide power_one_over)

lemma pow2_pos [simp]: "0 < pow2 e"
  by (simp add: pow2_powi)

lemma pow2_add: "pow2 (a + b) = pow2 a * pow2 b"
  by (simp add: pow2_powi power_int_add)

lemma pow2_nat: "pow2 (int n) = 2 ^ n"
  by (simp add: pow2_def)

lemma unat_pack: "n < 2 ^ 63 \<Longrightarrow> unat (pack s n) = (if s then 2 ^ 63 else 0) + n"
proof -
  assume n: "n < 2 ^ 63"
  have "unat (word_of_nat ((if s then 2 ^ 63 else 0) + n) :: 64 word)
        = ((if s then 2 ^ 63 else 0) + n) mod 2 ^ 64"
    by (simp only: unat_of_nat len_bit0 len_num1 mult_1_right)
       simp
  also have "\<dots> = (if s then 2 ^ 63 else 0) + n"
    using n by simp
  finally show ?thesis by (simp only: pack_def)
qed

lemma sign_bit_pack: "n < 2 ^ 63 \<Longrightarrow> sign_bit (pack s n) = s"
  by (simp add: sign_bit_def unat_pack)

lemma biased_exp_pack: "n < 2 ^ 63 \<Longrightarrow> biased_exp (pack s n) = n div 2 ^ 52"
proof -
  assume n: "n < 2 ^ 63"
  have "n div 2 ^ 52 < 2048" using n by (simp add: less_mult_imp_div_less)
  moreover have "(2 ^ 63 + n) div 2 ^ 52 = 2048 + n div 2 ^ 52"
    by (simp add: div_add1_eq)
  ultimately show ?thesis using n by (simp add: biased_exp_def unat_pack)
qed

lemma fraction_pack: "n < 2 ^ 63 \<Longrightarrow> fraction (pack s n) = n mod 2 ^ 52"
proof -
  assume n: "n < 2 ^ 63"
  have "(2 ^ 63 + n) mod 2 ^ 52 = n mod (2 ^ 52 :: nat)"
    using mod_mult_self3 [of 2048 "2 ^ 52" n] by simp
  then show ?thesis using n by (simp add: fraction_def unat_pack)
qed

lemma rne_shift_lower: "M div 2 ^ k \<le> rne_shift M k"
  by (simp add: rne_shift_def Let_def)

lemma rne_shift_upper: "M < 2 ^ (b + k) \<Longrightarrow> rne_shift M k \<le> 2 ^ b"
proof -
  assume "M < 2 ^ (b + k)"
  then have "M div 2 ^ k < 2 ^ b"
    by (simp add: less_mult_imp_div_less power_add)
  then show ?thesis by (simp add: rne_shift_def Let_def)
qed

lemma rne_shift_exact: "2 ^ k dvd M \<Longrightarrow> rne_shift M k = M div 2 ^ k"
  by (simp add: rne_shift_def Let_def)

lemma floorlog2_bounds: "0 < M \<Longrightarrow> 2 ^ (floorlog 2 M - 1) \<le> M \<and> M < 2 ^ floorlog 2 M"
  using floorlog_bounds [of M 2] by simp

lemma floorlog2_pos: "0 < M \<Longrightarrow> 0 < floorlog 2 M"
  by (simp add: floorlog_def)

lemma significand_le:
  assumes "0 < M"
  shows "significand M E \<le> 2 ^ 53"
proof -
  define L where "L = floorlog 2 M"
  define e where "e = quantum_exp M E"
  have M_lt: "M < 2 ^ L" using floorlog2_bounds [OF assms] by (simp add: L_def)
  have e_ge: "int L + E - 53 \<le> e" by (simp add: e_def quantum_exp_def L_def)
  show ?thesis
  proof (cases "e \<le> E")
    case True
    then have "L + nat (E - e) \<le> 53" using e_ge by linarith
    then have le: "(2::nat) ^ (L + nat (E - e)) \<le> 2 ^ 53"
      by (simp only: power_increasing_iff one_less_numeral_iff semiring_norm)
    have "M * 2 ^ nat (E - e) < 2 ^ L * 2 ^ nat (E - e)"
      using M_lt by simp
    also have "\<dots> = 2 ^ (L + nat (E - e))"
      by (simp only: power_add)
    also note le
    finally have "M * 2 ^ nat (E - e) < 2 ^ 53" .
    with True show ?thesis by (simp add: significand_def e_def [symmetric] Let_def)
  next
    case False
    then have "L \<le> 53 + nat (e - E)" using e_ge by linarith
    then have "(2::nat) ^ L \<le> 2 ^ (53 + nat (e - E))"
      by (simp only: power_increasing_iff one_less_numeral_iff semiring_norm)
    with M_lt have "M < 2 ^ (53 + nat (e - E))" by linarith
    from rne_shift_upper [OF this] False show ?thesis
      by (simp add: significand_def e_def [symmetric] Let_def)
  qed
qed

lemma significand_ge:
  assumes "0 < M" and "- 1074 < quantum_exp M E"
  shows "2 ^ 52 \<le> significand M E"
proof -
  define L where "L = floorlog 2 M"
  define e where "e = quantum_exp M E"
  have Lpos: "0 < L" using floorlog2_pos [OF assms(1)] by (simp add: L_def)
  have M_ge: "2 ^ (L - 1) \<le> M" using floorlog2_bounds [OF assms(1)] by (simp add: L_def)
  have e_eq: "e = int L + E - 53" using assms(2) by (simp add: e_def quantum_exp_def L_def)
  show ?thesis
  proof (cases "e \<le> E")
    case True
    then have "52 = (L - 1) + nat (E - e)" using e_eq Lpos by linarith
    then have "(2::nat) ^ 52 = 2 ^ (L - 1) * 2 ^ nat (E - e)"
      by (simp only: power_add)
    also have "\<dots> \<le> M * 2 ^ nat (E - e)"
      using M_ge by simp
    finally show ?thesis using True by (simp add: significand_def e_def [symmetric] Let_def)
  next
    case False
    then have "L - 1 = 52 + nat (e - E)" using e_eq Lpos by linarith
    then have "(2::nat) ^ (L - 1) = 2 ^ 52 * 2 ^ nat (e - E)"
      by (simp only: power_add)
    with M_ge have "2 ^ 52 * 2 ^ nat (e - E) \<le> M" by simp
    then have "2 ^ 52 \<le> M div 2 ^ nat (e - E)"
      by (simp add: less_eq_div_iff_mult_less_eq)
    also have "\<dots> \<le> rne_shift M (nat (e - E))" by (rule rne_shift_lower)
    finally show ?thesis using False by (simp add: significand_def e_def [symmetric] Let_def)
  qed
qed

lemma decode_bits:
  assumes m_le: "m \<le> 2 ^ 53"
    and m_ge: "0 < a \<Longrightarrow> 2 ^ 52 \<le> m"
    and fin: "a * 2 ^ 52 + m < 2047 * 2 ^ 52"
  shows "biased_exp (pack s (a * 2 ^ 52 + m)) < 2047"
    and "sign_bit (pack s (a * 2 ^ 52 + m)) = s"
    and "real (mant (pack s (a * 2 ^ 52 + m))) * pow2 (expo (pack s (a * 2 ^ 52 + m)))
         = real m * pow2 (int a - 1074)"
proof -
  let ?n = "a * 2 ^ 52 + m"
  have n63: "?n < 2 ^ 63" using fin by simp
  have be: "biased_exp (pack s ?n) = ?n div 2 ^ 52" by (rule biased_exp_pack [OF n63])
  have fr: "fraction (pack s ?n) = ?n mod 2 ^ 52" by (rule fraction_pack [OF n63])
  have "?n div 2 ^ 52 < 2047"
    using fin by (simp add: less_mult_imp_div_less)
  then show "biased_exp (pack s ?n) < 2047"
    by (simp only: be)
  show "sign_bit (pack s ?n) = s" by (rule sign_bit_pack [OF n63])
  consider (sub) "m < 2 ^ 52" | (nor) "2 ^ 52 \<le> m" "m < 2 ^ 53" | (top) "m = 2 ^ 53"
    using m_le by linarith
  then show "real (mant (pack s ?n)) * pow2 (expo (pack s ?n)) = real m * pow2 (int a - 1074)"
  proof cases
    case sub
    then have a0: "a = 0" using m_ge by fastforce
    have B: "biased_exp (pack s ?n) = 0" using sub be by (simp add: a0)
    have F: "fraction (pack s ?n) = m" using sub fr by (simp add: a0)
    show ?thesis unfolding mant_def expo_def B F by (simp add: a0)
  next
    case nor
    have d: "m div 2 ^ 52 = 1" using nor by (simp add: div_nat_eqI)
    have r: "m mod 2 ^ 52 = m - 2 ^ 52" using nor by (simp add: mod_if)
    have B: "biased_exp (pack s ?n) = a + 1" using d be by simp
    have F: "fraction (pack s ?n) = m - 2 ^ 52" using r fr by simp
    have "int (a + 1) - 1075 = int a - 1074" by simp
    then show ?thesis unfolding mant_def expo_def B F using nor by simp
  next
    case top
    have B: "biased_exp (pack s ?n) = a + 2" using top be by simp
    have F: "fraction (pack s ?n) = 0" using top fr by simp
    have "pow2 (int a - 1073) = pow2 ((int a - 1074) + 1)" by simp
    also have "\<dots> = pow2 (int a - 1074) * 2"
      by (simp only: pow2_add) (simp add: pow2_def)
    finally have p: "pow2 (int a - 1073) = 2 * pow2 (int a - 1074)" by simp
    have "int (a + 2) - 1075 = int a - 1073" by simp
    then show ?thesis unfolding mant_def expo_def B F using top by (simp add: p)
  qed
qed

lemma quantum_exp_ge: "- 1074 \<le> quantum_exp M E"
  by (simp add: quantum_exp_def)

lemma round_to_double_finite:
  assumes "0 < M"
    and "nat (quantum_exp M E + 1074) * 2 ^ 52 + significand M E < 2047 * 2 ^ 52"
  shows "biased_exp (round_to_double s M E) < 2047"
    and "sign_bit (round_to_double s M E) = s"
    and "real (mant (round_to_double s M E)) * pow2 (expo (round_to_double s M E))
         = real (significand M E) * pow2 (quantum_exp M E)"
proof -
  let ?a = "nat (quantum_exp M E + 1074)"
  let ?m = "significand M E"
  have r: "round_to_double s M E = pack s (?a * 2 ^ 52 + ?m)"
    using assms by (simp add: round_to_double_def inf_bits_def)
  have m_le: "?m \<le> 2 ^ 53" by (rule significand_le [OF assms(1)])
  have m_ge: "0 < ?a \<Longrightarrow> 2 ^ 52 \<le> ?m"
    using significand_ge [OF assms(1), of E] by simp
  have a: "int ?a - 1074 = quantum_exp M E"
    using quantum_exp_ge [of M E] by simp
  note d = decode_bits [OF m_le m_ge assms(2), of s]
  show "biased_exp (round_to_double s M E) < 2047" using d(1) by (simp only: r)
  show "sign_bit (round_to_double s M E) = s" using d(2) by (simp only: r)
  show "real (mant (round_to_double s M E)) * pow2 (expo (round_to_double s M E))
         = real ?m * pow2 (quantum_exp M E)"
    using d(3) by (simp only: r a)
qed

lemma mant_less: "mant w < 2 ^ 53"
  by (simp add: mant_def fraction_def) (simp add: add.commute less_imp_add_positive
      order_less_trans [OF mod_less_divisor])

lemma expo_ge: "- 1074 \<le> expo w"
  by (simp add: expo_def)

lemma mant_normal: "biased_exp w \<noteq> 0 \<Longrightarrow> 2 ^ 52 \<le> mant w"
  by (simp add: mant_def)

lemma mant_subnormal: "biased_exp w = 0 \<Longrightarrow> mant w < 2 ^ 52 \<and> expo w = - 1074"
  by (simp add: mant_def expo_def fraction_def)

lemma is_zero_mant: "is_zero w \<longleftrightarrow> mant w = 0"
  by (auto simp: is_zero_def mant_def)

lemma biased_exp_less: "biased_exp w < 2048"
  by (simp add: biased_exp_def)

lemma pow2_not_neg [simp]: "\<not> pow2 e < 0"
  using pow2_pos [of e] by (simp only: not_less less_imp_le)

lemma pow2_nonneg [simp]: "0 \<le> pow2 e"
  using pow2_pos [of e] by (simp only: less_imp_le)

lemma valof_pos_iff: "0 < valof w \<longleftrightarrow> \<not> sign_bit w \<and> 0 < mant w"
  by (auto simp: valof_def zero_less_mult_iff mult_less_0_iff)

lemma valof_pos: "0 < valof w \<Longrightarrow> valof w = real (mant w) * pow2 (expo w)"
  by (simp add: valof_pos_iff) (simp add: valof_def)

lemma pow2_mono: "a \<le> b \<Longrightarrow> pow2 a \<le> pow2 b"
  by (simp add: pow2_powi power_int_increasing)

lemma pow2_strict_mono: "a < b \<Longrightarrow> pow2 a < pow2 b"
  by (simp add: pow2_powi power_int_strict_increasing)

lemma valof_ulps: "real (mant w) * pow2 (expo w) = real (ulps w) * pow2 (- 1074)"
proof -
  have "pow2 (expo w) = pow2 (int (nat (expo w + 1074)) + (- 1074))"
    using expo_ge [of w] by simp
  also have "\<dots> = 2 ^ nat (expo w + 1074) * pow2 (- 1074)"
    by (simp only: pow2_add pow2_nat)
  finally show ?thesis by (simp add: ulps_def)
qed

lemma floorlog2_eq: "2 ^ n \<le> M \<Longrightarrow> M < 2 ^ Suc n \<Longrightarrow> floorlog 2 M = Suc n"
proof -
  assume lo: "2 ^ n \<le> M" and hi: "M < 2 ^ Suc n"
  have "floorlog 2 M \<le> Suc n" using hi by (intro floorlog_leI) simp_all
  moreover have "Suc n \<le> floorlog 2 M" using lo by (intro floorlog_ge_SucI) simp_all
  ultimately show ?thesis by simp
qed

lemma floorlog2_normal: "2 ^ 52 \<le> M \<Longrightarrow> M < 2 ^ 53 \<Longrightarrow> floorlog 2 M = 53"
  using floorlog2_eq [of 52 M] by simp

lemma floorlog2_le: "M < 2 ^ n \<Longrightarrow> floorlog 2 M \<le> n"
  by (intro floorlog_leI) simp_all

lemma floorlog2_shift: "0 < M \<Longrightarrow> floorlog 2 (2 ^ c * M) = floorlog 2 M + c"
  using floorlog_power [of M 2 c] by (simp add: mult.commute)

lemma two_fields:
  "mant d_two = 2 ^ 52" "expo d_two = - 51" "\<not> sign_bit d_two" "\<not> is_inf d_two" "\<not> is_zero d_two"
  by (simp_all add: field_defs is_inf_def is_zero_def d_two_def)

lemma half_fields:
  "mant d_half = 2 ^ 52" "expo d_half = - 53" "\<not> sign_bit d_half" "\<not> is_inf d_half"
  "\<not> is_zero d_half"
  by (simp_all add: field_defs is_inf_def is_zero_def d_half_def)

lemma rne_shift_scaled: "k \<le> 52 \<Longrightarrow> rne_shift (2 ^ 52 * M) k = 2 ^ (52 - k) * M"
proof -
  assume k: "k \<le> 52"
  have e: "(2::nat) ^ 52 = 2 ^ k * 2 ^ (52 - k)"
    using k by (simp flip: power_add)
  have "(2::nat) ^ k dvd 2 ^ 52 * M"
    using k by (intro dvd_mult2 le_imp_power_dvd)
  then have "rne_shift (2 ^ 52 * M) k = (2 ^ 52 * M) div 2 ^ k" by (rule rne_shift_exact)
  also have "\<dots> = (2 ^ k * (2 ^ (52 - k) * M)) div 2 ^ k"
    by (simp only: e mult.assoc)
  also have "\<dots> = 2 ^ (52 - k) * M"
    by simp
  finally show ?thesis .
qed

lemma rne_shift_halve:
  "rne_shift (2 ^ 52 * M) 53 = M div 2 + (if odd M \<and> odd (M div 2) then 1 else 0)"
proof -
  have q: "(2 ^ 52 * M) div 2 ^ 53 = M div 2"
    using div_mult2_eq [of "2 ^ 52 * M" "2 ^ 52" 2] by simp
  have "(2 ^ 52 * M) mod (2 ^ 52 * 2) = 2 ^ 52 * (M mod 2)"
    by (simp only: mult_mod_right)
  then have r: "(2 ^ 52 * M) mod 2 ^ 53 = 2 ^ 52 * (M mod 2)" by simp
  show ?thesis
    unfolding rne_shift_def Let_def q r by (cases "even M") (simp_all add: odd_iff_mod_2_eq_one)
qed

lemma rne_shift_halve_less: "0 < M \<Longrightarrow> rne_shift (2 ^ 52 * M) 53 < M"
  unfolding rne_shift_halve by presburger

lemma double_round_fields:
  assumes "0 < mant w"
  shows "quantum_exp (2 ^ 52 * mant w) (- 51 + expo w)
           = (if biased_exp w = 0 then - 1074 else expo w + 1)"
    and "significand (2 ^ 52 * mant w) (- 51 + expo w)
           = (if biased_exp w = 0 then 2 * mant w else mant w)"
proof -
  have fl: "floorlog 2 (2 ^ 52 * mant w) = floorlog 2 (mant w) + 52"
    by (rule floorlog2_shift [OF assms])
  show q: "quantum_exp (2 ^ 52 * mant w) (- 51 + expo w)
           = (if biased_exp w = 0 then - 1074 else expo w + 1)"
  proof (cases "biased_exp w = 0")
    case True
    from mant_subnormal [OF True] have "floorlog 2 (mant w) \<le> 52" and "expo w = - 1074"
      by (simp_all add: floorlog2_le)
    with True fl show ?thesis by (simp add: quantum_exp_def)
  next
    case False
    have "floorlog 2 (mant w) = 53"
      by (rule floorlog2_normal [OF mant_normal [OF False] mant_less])
    with False expo_ge [of w] fl show ?thesis by (simp add: quantum_exp_def)
  qed
  show "significand (2 ^ 52 * mant w) (- 51 + expo w)
           = (if biased_exp w = 0 then 2 * mant w else mant w)"
  proof (cases "biased_exp w = 0")
    case True
    from mant_subnormal [OF True] have e: "expo w = - 1074" by simp
    show ?thesis unfolding significand_def q Let_def
      using True rne_shift_scaled [of 51 "mant w"] by (simp add: e)
  next
    case False
    then show ?thesis unfolding significand_def q Let_def
      using rne_shift_scaled [of 52 "mant w"] by simp
  qed
qed

lemma halve_round_fields:
  assumes "0 < mant w"
  shows "quantum_exp (2 ^ 52 * mant w) (- 53 + expo w)
           = (if biased_exp w \<le> 1 then - 1074 else expo w - 1)"
    and "significand (2 ^ 52 * mant w) (- 53 + expo w)
           = (if biased_exp w \<le> 1 then rne_shift (2 ^ 52 * mant w) 53 else mant w)"
proof -
  have fl: "floorlog 2 (2 ^ 52 * mant w) = floorlog 2 (mant w) + 52"
    by (rule floorlog2_shift [OF assms])
  have fl_le: "floorlog 2 (mant w) \<le> 53"
    by (rule floorlog2_le [OF mant_less])
  show q: "quantum_exp (2 ^ 52 * mant w) (- 53 + expo w)
           = (if biased_exp w \<le> 1 then - 1074 else expo w - 1)"
  proof (cases "biased_exp w \<le> 1")
    case True
    then have "expo w = - 1074" by (auto simp: expo_def)
    with True fl_le fl show ?thesis by (simp add: quantum_exp_def)
  next
    case False
    then have nz: "biased_exp w \<noteq> 0" by simp
    have "floorlog 2 (mant w) = 53"
      by (rule floorlog2_normal [OF mant_normal [OF nz] mant_less])
    moreover have "- 1073 \<le> expo w" using False by (simp add: expo_def)
    ultimately show ?thesis using False fl by (simp add: quantum_exp_def)
  qed
  show "significand (2 ^ 52 * mant w) (- 53 + expo w)
           = (if biased_exp w \<le> 1 then rne_shift (2 ^ 52 * mant w) 53 else mant w)"
  proof (cases "biased_exp w \<le> 1")
    case True
    then have e: "expo w = - 1074" by (auto simp: expo_def)
    show ?thesis unfolding significand_def q Let_def using True by (simp add: e)
  next
    case False
    then show ?thesis unfolding significand_def q Let_def
      using rne_shift_scaled [of 52 "mant w"] by simp
  qed
qed

lemma valof_unsigned: "\<not> sign_bit w \<Longrightarrow> valof w = real (mant w) * pow2 (expo w)"
  by (simp add: valof_def)

lemma small_biased_exp:
  assumes "0 < valof w" and "valof w \<le> 10000000"
  shows "biased_exp w \<le> 1046"
proof (rule ccontr)
  assume "\<not> biased_exp w \<le> 1046"
  then have big: "1047 \<le> biased_exp w" by simp
  then have nz: "biased_exp w \<noteq> 0" by simp
  have "- 28 \<le> expo w" using big by (simp add: expo_def)
  then have "pow2 (- 28) \<le> pow2 (expo w)" by (rule pow2_mono)
  moreover have "(2::real) ^ 52 \<le> real (mant w)"
    using mant_normal [OF nz] by (metis of_nat_le_iff of_nat_numeral of_nat_power)
  ultimately have "2 ^ 52 * pow2 (- 28) \<le> real (mant w) * pow2 (expo w)"
    by (intro mult_mono) simp_all
  moreover have "(2::real) ^ 52 * pow2 (- 28) = 16777216" by (simp add: pow2_def)
  ultimately show False using assms by (simp add: valof_pos)
qed

lemma finite_of_small:
  assumes "0 < valof w" and "valof w \<le> 10000000"
  shows "\<not> isnan w" "\<not> is_inf w" "\<not> is_zero w" "\<not> sign_bit w" "0 < mant w"
  using small_biased_exp [OF assms] assms(1)
  by (simp_all add: isnan_def is_inf_def is_zero_mant valof_pos_iff)

lemma dmul_two_round:
  assumes "0 < valof w" and "valof w \<le> 10000000"
  shows "dmul d_two w = round_to_double False (2 ^ 52 * mant w) (- 51 + expo w)"
  using finite_of_small [OF assms]
  by (simp add: dmul_def isnan_consts two_fields)

lemma dmul_half_round:
  assumes "0 < valof w" and "valof w \<le> 10000000"
  shows "dmul d_half w = round_to_double False (2 ^ 52 * mant w) (- 53 + expo w)"
  using finite_of_small [OF assms]
  by (simp add: dmul_def isnan_consts half_fields)

lemma dmul_two:
  assumes "0 < valof w" and "valof w \<le> 10000000"
  shows "\<not> isnan (dmul d_two w)" and "valof (dmul d_two w) = 2 * valof w"
proof -
  let ?M = "2 ^ 52 * mant w" and ?E = "- 51 + expo w"
  note fin = finite_of_small [OF assms]
  have Mpos: "0 < ?M" using fin(5) by simp
  note f = double_round_fields [OF fin(5)]
  have B: "biased_exp w \<le> 1046" by (rule small_biased_exp [OF assms])
  have bits: "nat (quantum_exp ?M ?E + 1074) * 2 ^ 52 + significand ?M ?E < 2047 * 2 ^ 52"
  proof (cases "biased_exp w = 0")
    case True
    with mant_subnormal [OF True] show ?thesis unfolding f by simp
  next
    case False
    have "nat (expo w + 1 + 1074) = biased_exp w" using False by (simp add: expo_def)
    moreover have "biased_exp w * 2 ^ 52 \<le> 1046 * 2 ^ 52" using B by simp
    ultimately show ?thesis unfolding f using False mant_less [of w] by simp
  qed
  note r = round_to_double_finite [OF Mpos bits, of False]
  have eq: "dmul d_two w = round_to_double False ?M ?E" by (rule dmul_two_round [OF assms])
  show "\<not> isnan (dmul d_two w)" using r(1) by (simp add: eq isnan_def)
  have "valof (dmul d_two w) = real (significand ?M ?E) * pow2 (quantum_exp ?M ?E)"
    using r(2) r(3) by (simp add: eq valof_unsigned)
  also have "\<dots> = 2 * (real (mant w) * pow2 (expo w))"
  proof (cases "biased_exp w = 0")
    case True
    with mant_subnormal [OF True] show ?thesis unfolding f by simp
  next
    case False
    have "pow2 (expo w + 1) = pow2 (expo w) * 2" by (simp only: pow2_add) (simp add: pow2_def)
    with False show ?thesis unfolding f by simp
  qed
  finally show "valof (dmul d_two w) = 2 * valof w" by (simp add: valof_unsigned fin)
qed

lemma dmul_half:
  assumes "0 < valof w" and "valof w \<le> 10000000"
  shows "\<not> isnan (dmul d_half w)" and "0 \<le> valof (dmul d_half w)"
    and "valof (dmul d_half w) < valof w" and "ulps (dmul d_half w) < ulps w"
    and "2 \<le> biased_exp w \<Longrightarrow> valof (dmul d_half w) = valof w / 2"
proof -
  let ?M = "2 ^ 52 * mant w" and ?E = "- 53 + expo w"
  note fin = finite_of_small [OF assms]
  have Mpos: "0 < ?M" using fin(5) by simp
  note f = halve_round_fields [OF fin(5)]
  have B: "biased_exp w \<le> 1046" by (rule small_biased_exp [OF assms])
  have less: "rne_shift ?M 53 < mant w" by (rule rne_shift_halve_less [OF fin(5)])
  have bits: "nat (quantum_exp ?M ?E + 1074) * 2 ^ 52 + significand ?M ?E < 2047 * 2 ^ 52"
  proof (cases "biased_exp w \<le> 1")
    case True
    with less mant_less [of w] show ?thesis unfolding f by simp
  next
    case False
    have "nat (expo w - 1 + 1074) = biased_exp w - 2" using False by (simp add: expo_def)
    moreover have "(biased_exp w - 2) * 2 ^ 52 \<le> 1046 * 2 ^ 52" using B by simp
    ultimately show ?thesis unfolding f using False mant_less [of w] by simp
  qed
  note r = round_to_double_finite [OF Mpos bits, of False]
  have eq: "dmul d_half w = round_to_double False ?M ?E" by (rule dmul_half_round [OF assms])
  show "\<not> isnan (dmul d_half w)" using r(1) by (simp add: eq isnan_def)
  have v: "valof (dmul d_half w) = real (significand ?M ?E) * pow2 (quantum_exp ?M ?E)"
    using r(2) r(3) by (simp add: eq valof_unsigned)
  then show "0 \<le> valof (dmul d_half w)" by (simp add: less_imp_le)
  have w: "valof w = real (mant w) * pow2 (expo w)" by (simp add: valof_unsigned fin)
  have p: "pow2 (expo w - 1) = pow2 (expo w) / 2"
    using pow2_add [of "expo w" "- 1"] by (simp add: pow2_def)
  show lt: "valof (dmul d_half w) < valof w"
  proof (cases "biased_exp w \<le> 1")
    case True
    then have "expo w = - 1074" by (auto simp: expo_def)
    with True less show ?thesis unfolding v w f by simp
  next
    case False
    with fin(5) show ?thesis unfolding v w f by (simp add: p)
  qed
  have "\<not> sign_bit (dmul d_half w)" using r(2) by (simp add: eq)
  then have "real (ulps (dmul d_half w)) * pow2 (- 1074) < real (ulps w) * pow2 (- 1074)"
    using lt by (simp add: valof_unsigned fin valof_ulps)
  then show "ulps (dmul d_half w) < ulps w" by simp
  show "valof (dmul d_half w) = valof w / 2" if "2 \<le> biased_exp w"
    using that unfolding v w f by (simp add: p)
qed

section \<open>Rounding is monotone\<close>

lemma rne_shift_near:
  fixes M k :: nat
  defines "R \<equiv> rne_shift M k"
  shows "2 * (R * 2 ^ k) \<le> 2 * M + 2 ^ k" and "2 * M \<le> 2 * (R * 2 ^ k) + 2 ^ k"
    and "2 * (R * 2 ^ k) = 2 * M + 2 ^ k \<Longrightarrow> even R"
    and "2 * M = 2 * (R * 2 ^ k) + 2 ^ k \<Longrightarrow> even R"
proof -
  define quo where "quo = M div 2 ^ k"
  define rem where "rem = M mod 2 ^ k"
  have M: "M = quo * 2 ^ k + rem"
    using div_mult_mod_eq [of M "2 ^ k"] by (simp add: quo_def rem_def)
  have rem: "rem < 2 ^ k" by (simp add: rem_def)
  have R: "R = (if 2 ^ k < 2 * rem \<or> (2 * rem = 2 ^ k \<and> odd quo) then quo + 1 else quo)"
    by (simp add: R_def rne_shift_def Let_def quo_def rem_def)
  show "2 * (R * 2 ^ k) \<le> 2 * M + 2 ^ k"
    unfolding R M using rem by (auto simp: algebra_simps)
  show "2 * M \<le> 2 * (R * 2 ^ k) + 2 ^ k"
    unfolding R M using rem by (auto simp: algebra_simps)
  show "even R" if "2 * (R * 2 ^ k) = 2 * M + 2 ^ k"
    using that rem unfolding R M by (auto simp: algebra_simps split: if_splits)
  show "even R" if "2 * M = 2 * (R * 2 ^ k) + 2 ^ k"
    using that rem unfolding R M by (auto simp: algebra_simps split: if_splits)
qed

lemma rne_shift_nearest:
  fixes M k :: nat
  shows "\<bar>real (rne_shift M k) - real M / 2 ^ k\<bar> \<le> 1 / 2"
    and "\<bar>real (rne_shift M k) - real M / 2 ^ k\<bar> = 1 / 2 \<Longrightarrow> even (rne_shift M k)"
proof -
  let ?R = "rne_shift M k"
  note n = rne_shift_near [of M k]
  have p: "(0::real) < 2 ^ k" by simp
  have a: "2 * (real ?R * 2 ^ k) \<le> 2 * real M + 2 ^ k"
    using n(1) by (metis (mono_tags, opaque_lifting) of_nat_add of_nat_le_iff of_nat_mult
        of_nat_numeral of_nat_power)
  have b: "2 * real M \<le> 2 * (real ?R * 2 ^ k) + 2 ^ k"
    using n(2) by (metis (mono_tags, opaque_lifting) of_nat_add of_nat_le_iff of_nat_mult
        of_nat_numeral of_nat_power)
  have up: "real ?R - real M / 2 ^ k \<le> 1 / 2"
    using a p by (simp add: field_simps)
  have lo: "- (1 / 2) \<le> real ?R - real M / 2 ^ k"
    using b p by (simp add: field_simps)
  from up lo show "\<bar>real ?R - real M / 2 ^ k\<bar> \<le> 1 / 2" by linarith
  show "even ?R" if t: "\<bar>real ?R - real M / 2 ^ k\<bar> = 1 / 2"
  proof -
    from t have "real ?R - real M / 2 ^ k = 1 / 2 \<or> real ?R - real M / 2 ^ k = - (1 / 2)"
      by linarith
    then show ?thesis
    proof
      assume "real ?R - real M / 2 ^ k = 1 / 2"
      then have "2 * (real ?R * 2 ^ k) = 2 * real M + 2 ^ k"
        using p by (simp add: field_simps)
      then have "2 * (?R * 2 ^ k) = 2 * M + 2 ^ k"
        by (metis (mono_tags, opaque_lifting) of_nat_add of_nat_eq_iff of_nat_mult
            of_nat_numeral of_nat_power)
      then show ?thesis by (rule n(3))
    next
      assume "real ?R - real M / 2 ^ k = - (1 / 2)"
      then have "2 * real M = 2 * (real ?R * 2 ^ k) + 2 ^ k"
        using p by (simp add: field_simps)
      then have "2 * M = 2 * (?R * 2 ^ k) + 2 ^ k"
        by (metis (mono_tags, opaque_lifting) of_nat_add of_nat_eq_iff of_nat_mult
            of_nat_numeral of_nat_power)
      then show ?thesis by (rule n(4))
    qed
  qed
qed

lemma nearest_even_mono:
  fixes m1 m2 :: nat and y1 y2 :: real
  assumes "y1 \<le> y2"
    and "\<bar>real m1 - y1\<bar> \<le> 1 / 2" and "\<bar>real m2 - y2\<bar> \<le> 1 / 2"
    and "\<bar>real m1 - y1\<bar> = 1 / 2 \<Longrightarrow> even m1"
    and "\<bar>real m2 - y2\<bar> = 1 / 2 \<Longrightarrow> even m2"
  shows "m1 \<le> m2"
proof (rule ccontr)
  assume "\<not> m1 \<le> m2"
  then have "m2 + 1 \<le> m1" by simp
  then have "real (m2 + 1) \<le> real m1" by (simp only: of_nat_le_iff)
  then have gap: "real m2 + 1 \<le> real m1" by simp
  from gap assms(1-3) have "\<bar>real m1 - y1\<bar> = 1 / 2" "\<bar>real m2 - y2\<bar> = 1 / 2"
    and "real m1 = real m2 + 1"
    by linarith+
  then have "even m1" "even m2" "m1 = m2 + 1"
    using assms(4,5) by (simp_all add: of_nat_eq_iff [symmetric] del: of_nat_eq_iff)
  then show False by simp
qed

lemma significand_nearest:
  shows "\<bar>real (significand M E) - real M * pow2 (E - quantum_exp M E)\<bar> \<le> 1 / 2"
    and "\<bar>real (significand M E) - real M * pow2 (E - quantum_exp M E)\<bar> = 1 / 2
         \<Longrightarrow> even (significand M E)"
proof -
  let ?q = "quantum_exp M E"
  have both: "\<bar>real (significand M E) - real M * pow2 (E - ?q)\<bar> \<le> 1 / 2
     \<and> (\<bar>real (significand M E) - real M * pow2 (E - ?q)\<bar> = 1 / 2 \<longrightarrow> even (significand M E))"
  proof (cases "?q \<le> E")
    case True
    then have "significand M E = M * 2 ^ nat (E - ?q)" by (simp add: significand_def)
    moreover have "pow2 (E - ?q) = 2 ^ nat (E - ?q)" using True by (simp add: pow2_def)
    ultimately show ?thesis by simp
  next
    case False
    then have s: "significand M E = rne_shift M (nat (?q - E))" by (simp add: significand_def)
    have p: "pow2 (E - ?q) = 1 / 2 ^ nat (?q - E)" using False by (simp add: pow2_def)
    show ?thesis
      unfolding s p using rne_shift_nearest [of M "nat (?q - E)"] by simp
  qed
  from both show "\<bar>real (significand M E) - real M * pow2 (E - ?q)\<bar> \<le> 1 / 2" ..
  from both show "even (significand M E)"
    if "\<bar>real (significand M E) - real M * pow2 (E - ?q)\<bar> = 1 / 2"
    using that by blast
qed

lemma value_binade:
  assumes "0 < M"
  shows "pow2 (int (floorlog 2 M) + E - 1) \<le> real M * pow2 E"
    and "real M * pow2 E < pow2 (int (floorlog 2 M) + E)"
proof -
  let ?L = "floorlog 2 M"
  have L: "0 < ?L" by (rule floorlog2_pos [OF assms])
  from floorlog2_bounds [OF assms] have lo: "2 ^ (?L - 1) \<le> M" and hi: "M < 2 ^ ?L" by simp_all
  have "(2::real) ^ (?L - 1) \<le> real M"
    using lo by (metis of_nat_le_iff of_nat_numeral of_nat_power)
  then have "2 ^ (?L - 1) * pow2 E \<le> real M * pow2 E"
    by (intro mult_right_mono) simp_all
  moreover have "pow2 (int ?L + E - 1) = 2 ^ (?L - 1) * pow2 E"
  proof -
    have "int ?L + E - 1 = int (?L - 1) + E" using L by simp
    then show ?thesis by (simp only: pow2_add pow2_nat)
  qed
  ultimately show "pow2 (int ?L + E - 1) \<le> real M * pow2 E" by simp
  have "real M < 2 ^ ?L"
    using hi by (metis of_nat_less_iff of_nat_numeral of_nat_power)
  then have "real M * pow2 E < 2 ^ ?L * pow2 E"
    by (intro mult_strict_right_mono) simp_all
  then show "real M * pow2 E < pow2 (int ?L + E)"
    by (simp only: pow2_add pow2_nat)
qed

lemma quantum_exp_mono:
  assumes "0 < M1" and "0 < M2" and "real M1 * pow2 E1 \<le> real M2 * pow2 E2"
  shows "quantum_exp M1 E1 \<le> quantum_exp M2 E2"
proof -
  have "pow2 (int (floorlog 2 M1) + E1 - 1) < pow2 (int (floorlog 2 M2) + E2)"
    using value_binade(1) [OF assms(1), of E1] value_binade(2) [OF assms(2), of E2] assms(3)
    by linarith
  then have "int (floorlog 2 M1) + E1 - 1 < int (floorlog 2 M2) + E2"
    using pow2_mono [of "int (floorlog 2 M2) + E2" "int (floorlog 2 M1) + E1 - 1"]
    by linarith
  then show ?thesis by (simp add: quantum_exp_def)
qed

lemma round_bits_mono:
  assumes "0 < M1" and "0 < M2" and "real M1 * pow2 E1 \<le> real M2 * pow2 E2"
  shows "nat (quantum_exp M1 E1 + 1074) * 2 ^ 52 + significand M1 E1
         \<le> nat (quantum_exp M2 E2 + 1074) * 2 ^ 52 + significand M2 E2"
proof -
  let ?q1 = "quantum_exp M1 E1" and ?q2 = "quantum_exp M2 E2"
  have q: "?q1 \<le> ?q2" by (rule quantum_exp_mono [OF assms])
  show ?thesis
  proof (cases "?q1 = ?q2")
    case True
    have "pow2 E1 * pow2 (- ?q1) = pow2 (E1 - ?q1)" "pow2 E2 * pow2 (- ?q1) = pow2 (E2 - ?q1)"
      using pow2_add [of E1 "- ?q1"] pow2_add [of E2 "- ?q1"] by simp_all
    moreover have "real M1 * pow2 E1 * pow2 (- ?q1) \<le> real M2 * pow2 E2 * pow2 (- ?q1)"
      using assms(3) by (intro mult_right_mono) simp_all
    ultimately have y: "real M1 * pow2 (E1 - ?q1) \<le> real M2 * pow2 (E2 - ?q2)"
      by (simp add: True mult.assoc)
    have "significand M1 E1 \<le> significand M2 E2"
      by (rule nearest_even_mono [OF y significand_nearest(1) significand_nearest(1)
            significand_nearest(2) significand_nearest(2)])
    with True show ?thesis by simp
  next
    case False
    with q have lt: "?q1 < ?q2" by simp
    then have "- 1074 < ?q2" using quantum_exp_ge [of M1 E1] by simp
    from significand_ge [OF assms(2) this] have m2: "2 ^ 52 \<le> significand M2 E2" .
    have m1: "significand M1 E1 \<le> 2 ^ 53" by (rule significand_le [OF assms(1)])
    have "nat (?q1 + 1074) + 1 \<le> nat (?q2 + 1074)"
      using lt quantum_exp_ge [of M1 E1] by simp
    then have "(nat (?q1 + 1074) + 1) * 2 ^ 52 \<le> nat (?q2 + 1074) * 2 ^ 52" by simp
    with m1 m2 show ?thesis by simp
  qed
qed

lemma valof_pack_unsigned:
  assumes "n < 2 ^ 63"
  shows "valof (pack s n) = (if s then - 1 else 1) * valof (pack False n)"
    and "valof (pack False n) =
           (if n div 2 ^ 52 = 0 then real (n mod 2 ^ 52) * pow2 (- 1074)
            else (2 ^ 52 + real (n mod 2 ^ 52)) * pow2 (int (n div 2 ^ 52) - 1075))"
    and "0 \<le> valof (pack False n)"
proof -
  have f: "mant (pack s n) = mant (pack False n)" "expo (pack s n) = expo (pack False n)" for s
    by (simp_all add: mant_def expo_def biased_exp_pack [OF assms] fraction_pack [OF assms])
  show "valof (pack s n) = (if s then - 1 else 1) * valof (pack False n)"
    by (simp add: valof_def sign_bit_pack [OF assms] f [of s])
  show "valof (pack False n) =
           (if n div 2 ^ 52 = 0 then real (n mod 2 ^ 52) * pow2 (- 1074)
            else (2 ^ 52 + real (n mod 2 ^ 52)) * pow2 (int (n div 2 ^ 52) - 1075))"
    by (simp add: valof_def sign_bit_pack [OF assms] mant_def expo_def
        biased_exp_pack [OF assms] fraction_pack [OF assms])
  then show "0 \<le> valof (pack False n)" by simp
qed

lemma valof_pack_upper:
  assumes "n < 2 ^ 63"
  shows "valof (pack False n) \<le> 2 ^ 52 * pow2 (int (n div 2 ^ 52) - 1074)"
proof -
  define B where "B = n div 2 ^ 52"
  define f where "f = real (n mod 2 ^ 52)"
  define c where "c = (2::real) ^ 52"
  have c: "0 \<le> c" by (simp add: c_def)
  have f: "f \<le> c"
  proof -
    have "n mod 2 ^ 52 \<le> 2 ^ 52" by (simp add: less_imp_le)
    then have "real (n mod 2 ^ 52) \<le> real (2 ^ 52)" by (simp only: of_nat_le_iff)
    then show ?thesis by (simp add: f_def c_def)
  qed
  have v: "valof (pack False n) =
             (if B = 0 then f * pow2 (- 1074) else (c + f) * pow2 (int B - 1075))"
    unfolding B_def f_def c_def by (rule valof_pack_unsigned(2) [OF assms])
  have goal: "valof (pack False n) \<le> c * pow2 (int B - 1074)"
  proof (cases "B = 0")
    case True
    have "f * pow2 (- 1074) \<le> c * pow2 (- 1074)"
      using f by (intro mult_right_mono) simp_all
    with True show ?thesis by (simp add: v)
  next
    case False
    have "pow2 (int B - 1075 + 1) = pow2 (int B - 1075) * pow2 1"
      by (rule pow2_add)
    moreover have "int B - 1075 + 1 = int B - 1074" by simp
    moreover have "pow2 1 = 2" by (simp add: pow2_def)
    ultimately have p: "pow2 (int B - 1074) = pow2 (int B - 1075) * 2" by simp
    have "(c + f) * pow2 (int B - 1075) \<le> (c + c) * pow2 (int B - 1075)"
      using f by (intro mult_right_mono) simp_all
    also have "\<dots> = c * pow2 (int B - 1074)" by (simp add: p)
    finally show ?thesis using False by (simp add: v)
  qed
  then show ?thesis by (simp only: B_def c_def)
qed

lemma valof_pack_lower:
  assumes "n < 2 ^ 63" and "n div 2 ^ 52 \<noteq> 0"
  shows "2 ^ 52 * pow2 (int (n div 2 ^ 52) - 1075) \<le> valof (pack False n)"
proof -
  have "2 ^ 52 * pow2 (int (n div 2 ^ 52) - 1075)
        \<le> (2 ^ 52 + real (n mod 2 ^ 52)) * pow2 (int (n div 2 ^ 52) - 1075)"
    by (intro mult_right_mono) simp_all
  with assms(2) show ?thesis by (simp add: valof_pack_unsigned(2) [OF assms(1)])
qed

lemma valof_pack_mono:
  assumes "n1 \<le> n2" and "n2 < 2 ^ 63"
  shows "valof (pack False n1) \<le> valof (pack False n2)"
proof -
  have n1: "n1 < 2 ^ 63" using assms by simp
  define B1 where "B1 = n1 div 2 ^ 52"
  define B2 where "B2 = n2 div 2 ^ 52"
  define f1 where "f1 = n1 mod 2 ^ 52"
  define f2 where "f2 = n2 mod 2 ^ 52"
  define c where "c = (2::real) ^ 52"
  have c: "0 \<le> c" by (simp add: c_def)
  have B: "B1 \<le> B2" unfolding B1_def B2_def using assms(1) by (rule div_le_mono)
  have v1: "valof (pack False n1) =
             (if B1 = 0 then real f1 * pow2 (- 1074) else (c + real f1) * pow2 (int B1 - 1075))"
    unfolding B1_def f1_def c_def by (rule valof_pack_unsigned(2) [OF n1])
  have v2: "valof (pack False n2) =
             (if B2 = 0 then real f2 * pow2 (- 1074) else (c + real f2) * pow2 (int B2 - 1075))"
    unfolding B2_def f2_def c_def by (rule valof_pack_unsigned(2) [OF assms(2)])
  show ?thesis
  proof (cases "B1 = B2")
    case True
    have "B1 * 2 ^ 52 + f1 = n1" "B2 * 2 ^ 52 + f2 = n2"
      unfolding B1_def B2_def f1_def f2_def by (rule div_mult_mod_eq)+
    with assms(1) True have "f1 \<le> f2" by simp
    then have f: "real f1 \<le> real f2" by (simp only: of_nat_le_iff)
    have "real f1 * pow2 (- 1074) \<le> real f2 * pow2 (- 1074)"
      using f by (intro mult_right_mono) simp_all
    moreover have "(c + real f1) * pow2 (int B2 - 1075) \<le> (c + real f2) * pow2 (int B2 - 1075)"
      using f by (intro mult_right_mono) simp_all
    ultimately show ?thesis unfolding v1 v2 True by simp
  next
    case False
    with B have lt: "B1 < B2" by simp
    then have nz: "n2 div 2 ^ 52 \<noteq> 0" by (simp add: B2_def)
    have "int B1 - 1074 \<le> int B2 - 1075" using lt by simp
    then have "pow2 (int B1 - 1074) \<le> pow2 (int B2 - 1075)"
      by (rule pow2_mono)
    then have "c * pow2 (int B1 - 1074) \<le> c * pow2 (int B2 - 1075)"
      using c by (rule mult_left_mono)
    moreover have "valof (pack False n1) \<le> c * pow2 (int B1 - 1074)"
      unfolding B1_def c_def by (rule valof_pack_upper [OF n1])
    moreover have "c * pow2 (int B2 - 1075) \<le> valof (pack False n2)"
      unfolding B2_def c_def by (rule valof_pack_lower [OF assms(2) nz])
    ultimately show ?thesis by linarith
  qed
qed

lemma round_bits_bound: "min n inf_bits < 2 ^ 63"
  by (simp add: inf_bits_def min_def)

lemma round_to_double_sign:
  "valof (round_to_double s M E) = (if s then - 1 else 1) * valof (round_to_double False M E)"
proof (cases s)
  case True
  have "0 < (2 ^ 63 :: nat)" by simp
  from valof_pack_unsigned(1) [OF this, of True]
    valof_pack_unsigned(1) [OF round_bits_bound, of True]
  show ?thesis by (simp only: round_to_double_def True) simp
next
  case False
  then show ?thesis by simp
qed

lemma round_to_double_nonneg: "0 \<le> valof (round_to_double False M E)"
proof -
  have "0 < (2 ^ 63 :: nat)" by simp
  from valof_pack_unsigned(3) [OF this] valof_pack_unsigned(3) [OF round_bits_bound]
  show ?thesis by (simp only: round_to_double_def) simp
qed

lemma round_to_double_mono:
  assumes "0 < M1" and "0 < M2" and "real M1 * pow2 E1 \<le> real M2 * pow2 E2"
  shows "valof (round_to_double False M1 E1) \<le> valof (round_to_double False M2 E2)"
proof -
  let ?b1 = "nat (quantum_exp M1 E1 + 1074) * 2 ^ 52 + significand M1 E1"
  let ?b2 = "nat (quantum_exp M2 E2 + 1074) * 2 ^ 52 + significand M2 E2"
  have "?b1 \<le> ?b2" by (rule round_bits_mono [OF assms])
  then have "min ?b1 inf_bits \<le> min ?b2 inf_bits" by (rule min.mono) simp
  moreover have "min ?b2 inf_bits < 2 ^ 63" by (rule round_bits_bound)
  ultimately have "valof (pack False (min ?b1 inf_bits)) \<le> valof (pack False (min ?b2 inf_bits))"
    by (rule valof_pack_mono)
  with assms(1,2) show ?thesis by (simp add: round_to_double_def)
qed

section \<open>The setters\<close>

text \<open>
  C8. For every argument \<open>j\<close>, \<^verbatim>\<open>set_stepsize_jitter(j)\<close> stores \<open>j\<close> as the jitter fraction
  when \<open>0 < j < 1\<close>; for every other \<open>j\<close> (0, negative, at least 1, NaN) it returns
  normally with the sampler unchanged in every field.
\<close>

theorem set_stepsize_jitter_spec:
  "set_stepsize_jitter j s =
     (if \<not> isnan j \<and> 0 < valof j \<and> valof j < 1 then s\<lparr>epsilon_jitter := j\<rparr> else s)"
  by (simp add: set_stepsize_jitter_def dgt_zero_iff dlt_one_iff)

text \<open>
  C9. For every argument \<open>e\<close> and every hook of the derived class,
  \<^verbatim>\<open>set_nominal_stepsize(e)\<close> is one application of the hook \<^verbatim>\<open>update_L_\<close> to the sampler in
  which the nominal step size is \<open>e\<close> when \<open>e > 0\<close> and is the old one otherwise (0,
  negative, NaN): the hook runs once, after the assignment, also when \<open>e\<close> is rejected.
\<close>

theorem set_nominal_stepsize_spec:
  "set_nominal_stepsize update_L e s =
     update_L (s\<lparr>nom_epsilon := (if \<not> isnan e \<and> 0 < valof e then e else nom_epsilon s)\<rparr>)"
  by (simp add: set_nominal_stepsize_def dgt_zero_iff)

section \<open>Skipping the search\<close>

text \<open>
  C7. If on entry the nominal step size is exactly 0 or above \<open>1e7\<close>, \<^verbatim>\<open>init_stepsize\<close>
  returns normally at once with the sampler as it was: nominal and current step size,
  jitter, point and environment are all unchanged, so no collaborator has run.
\<close>

theorem init_stepsize_skip:
  assumes "\<not> isnan (nom_epsilon s)"
    and "valof (nom_epsilon s) = 0 \<or> 10000000 < valof (nom_epsilon s)"
  shows "init_stepsize C s = Some (Inr s)"
  using assms by (simp add: init_stepsize_def deq_zero_iff dgt_1e7_iff)

theorem init_stepsize_skip_witness:
  "\<not> isnan (nom_epsilon (stub_sampler d_zero d_zero))
   \<and> valof (nom_epsilon (stub_sampler d_zero d_zero)) = 0
   \<and> init_stepsize (stub_collaborators d_zero d_one d_half) (stub_sampler d_zero d_zero)
       = Some (Inr (stub_sampler d_zero d_zero))"
proof -
  have nan: "\<not> isnan (nom_epsilon (stub_sampler d_zero d_zero))"
    by (simp add: stub_sampler_def isnan_consts)
  have val: "valof (nom_epsilon (stub_sampler d_zero d_zero)) = 0"
    by (simp add: stub_sampler_def valof_consts)
  from init_stepsize_skip [OF nan disjI1 [OF val]] nan val show ?thesis
    by simp
qed

section \<open>The search loop\<close>

lemma probe_frame:
  "nom_epsilon (snd (probe C s)) = nom_epsilon s"
  "epsilon (snd (probe C s)) = epsilon s"
  "epsilon_jitter (snd (probe C s)) = epsilon_jitter s"
  "base_hmc.more (snd (probe C s)) = base_hmc.more s"
  by (simp_all add: probe_def Let_def split: prod.splits)

lemma probe_delta:
  "fst (probe C s) = dsub (probe_H0 C s) (if isnan (probe_h C s) then d_inf else probe_h C s)"
  by (simp add: probe_def probe_H0_def probe_h_def Let_def split: prod.splits)

lemma restart_frame:
  "nom_epsilon (restart z0 s) = nom_epsilon s"
  "epsilon (restart z0 s) = epsilon s"
  "epsilon_jitter (restart z0 s) = epsilon_jitter s"
  "env (restart z0 s) = env s"
  "ps_point_copy (z (restart z0 s)) = z0"
  by (simp_all add: restart_def ps_point_copy_def ps_point_assign_def)

lemma loop_body_eq:
  "loop_body C z0 d s =
     (let pr = probe C (restart z0 s);
          s2 = (snd pr)\<lparr>nom_epsilon := scaled d (nom_epsilon s)\<rparr>
      in if accepts d (fst pr) then Break (snd pr)
         else if dgt (nom_epsilon s2) d_1e7 then Throw improper_posterior s2
         else if deq (nom_epsilon s2) d_zero then Throw no_small_stepsize s2
         else Continue s2)"
proof -
  obtain dH s1 where pr: "probe C (restart z0 s) = (dH, s1)"
    by (cases "probe C (restart z0 s)")
  have ne: "nom_epsilon s1 = nom_epsilon s"
    using probe_frame(1) [of C "restart z0 s"] by (simp add: pr restart_frame)
  show ?thesis
    unfolding loop_body_def restart_def [symmetric] pr Let_def
    by (simp add: accepts_def scaled_def ne)
qed




lemmas init_loop_induct = init_loop.raw_induct [rotated 1, consumes 1, case_names step]

lemma init_stepsize_run:
  assumes "\<not> deq (nom_epsilon s) d_zero" and "\<not> dgt (nom_epsilon s) d_1e7"
  shows "init_stepsize C s =
     (case init_loop C (ps_point_copy (z s))
             (if dgt (fst (probe C s)) log_0_8 then 1 else - 1) (snd (probe C s)) of
        None \<Rightarrow> None
      | Some (Inl thrown) \<Rightarrow> Some (Inl thrown)
      | Some (Inr s2) \<Rightarrow> Some (Inr (restart (ps_point_copy (z s)) s2)))"
  unfolding init_stepsize_def restart_def Let_def using assms
  by (simp split: prod.splits)



lemma dsub_zero_zero: "dsub d_zero d_zero = d_zero"
  by (simp add: dsub_def dadd_def dneg_def isnan_def is_inf_def field_defs signed_mant_def
      pack_def d_zero_def)

lemma dgt_zero_log: "dgt d_zero log_0_8"
  by (simp add: dgt_def dlt_def isnan_consts valof_consts valof_log_0_8)

lemma stub_probe:
  "probe (stub_collaborators h0 h1 u) s =
     (dsub h0 (if isnan h1 then d_inf else h1),
      s\<lparr>z := (z s)\<lparr>q := [nom_epsilon s], p := [d_two]\<rparr>\<rparr>)"
  by (simp add: probe_def stub_collaborators_def d_one_def d_two_def)

lemma stub_energies:
  "probe_H0 (stub_collaborators h0 h1 u) s = h0"
  "probe_h (stub_collaborators h0 h1 u) s = h1"
  by (simp_all add: probe_H0_def probe_h_def stub_collaborators_def d_one_def d_two_def)

lemma stub_sampler_fields:
  "nom_epsilon (stub_sampler eps j) = eps"
  "epsilon_jitter (stub_sampler eps j) = j"
  "epsilon (stub_sampler eps j) = d_0_1"
  "z (stub_sampler eps j) = stub_point"
  "env (stub_sampler eps j) = 0"
  by (simp_all add: stub_sampler_def base_hmc_new_def)

lemma dgt_two_1e7: "dgt (dmul d_two d_1e7) d_1e7"
  using dmul_two [of d_1e7] by (simp add: dgt_1e7_iff valof_consts)

lemma init_loop_throw:
  "loop_body C z0 d s = Throw e s' \<Longrightarrow> init_loop C z0 d s = Some (Inl (e, s'))"
  by (subst init_loop.simps) simp

lemma init_loop_break:
  "loop_body C z0 d s = Break s' \<Longrightarrow> init_loop C z0 d s = Some (Inr s')"
  by (subst init_loop.simps) simp

lemma init_loop_continue:
  "loop_body C z0 d s = Continue s' \<Longrightarrow> init_loop C z0 d s = init_loop C z0 d s'"
  by (subst init_loop.simps) simp



section \<open>The point after the search\<close>



lemma loop_body_break:
  "loop_body C z0 d s = Break s' \<Longrightarrow>
     s' = snd (probe C (restart z0 s)) \<and> accepts d (fst (probe C (restart z0 s)))"
  by (auto simp: loop_body_eq Let_def split: if_splits)


lemma init_loop_accepted:
  fixes s :: "('b, 'm, 'env, 'd) sampler"
  assumes "init_loop C z0 d s = Some r"
  shows "\<forall>s'. r = Inr s' \<longrightarrow>
           (\<exists>t :: ('b, 'm, 'env, 'd) sampler. s' = snd (probe C (restart z0 t)) \<and> accepts d (fst (probe C (restart z0 t))))"
  using assms
proof (induction rule: init_loop_induct)
  case (step loop C z0 d s r)
  show ?case
  proof (cases "loop_body C z0 d s")
    case (Break s')
    with step(2) have "r = Inr s'" by simp
    with loop_body_break [OF Break] show ?thesis by auto
  next
    case (Throw e s')
    with step(2) show ?thesis by auto
  next
    case (Continue s')
    with step(2) have "loop C z0 d s' = Some r" by simp
    from step(1) [OF this] show ?thesis .
  qed
qed



lemma dsub_inf_inf: "isnan (dsub d_inf d_inf)"
  by (simp add: dsub_def dadd_def dneg_def isnan_def is_inf_def field_defs pack_def d_inf_def
      d_nan_def)

lemma valof_0_1: "valof d_0_1 = 3602879701896397 / 36028797018963968"
  by (simp add: valof_def field_defs d_0_1_def)

lemma stub_nan_run:
  "init_stepsize (stub_collaborators d_inf d_inf u) (stub_sampler d_0_1 j) =
     Some (Inr (stub_sampler d_0_1 j))"
proof -
  let ?C = "stub_collaborators d_inf d_inf u"
  let ?s = "stub_sampler d_0_1 j"
  let ?s1 = "?s\<lparr>z := \<lparr>q = [d_0_1], p = [d_two], bookkeeping = ()\<rparr>\<rparr>"
  have run: "\<not> deq (nom_epsilon ?s) d_zero" "\<not> dgt (nom_epsilon ?s) d_1e7"
    by (simp_all add: stub_sampler_fields deq_zero_iff dgt_1e7_iff valof_0_1)
  have nd: "\<not> dgt (dsub d_inf d_inf) log_0_8" "\<not> dlt (dsub d_inf d_inf) log_0_8"
    using dsub_inf_inf by (simp_all add: dgt_def dlt_def)
  have pr: "probe ?C ?s = (dsub d_inf d_inf, ?s1)"
    by (simp add: stub_probe isnan_consts stub_sampler_def base_hmc_new_def stub_point_def)
  have pr1: "probe ?C (restart (ps_point_copy (z ?s)) ?s1) = (dsub d_inf d_inf, ?s1)"
    by (simp add: stub_probe isnan_consts stub_sampler_def base_hmc_new_def
        stub_point_def restart_def ps_point_copy_def ps_point_assign_def)
  have "loop_body ?C (ps_point_copy (z ?s)) (- 1) ?s1 = Break ?s1"
    unfolding loop_body_eq pr1 Let_def by (simp add: accepts_def nd)
  from init_loop_break [OF this]
  show ?thesis
    unfolding init_stepsize_run [OF run] pr
    by (simp add: nd restart_def ps_point_copy_def ps_point_assign_def stub_sampler_def
        base_hmc_new_def stub_point_def)
qed



section \<open>NaN energies\<close>

lemma unat_mod_63: "unat w mod 2 ^ 63 < (2 ^ 63 :: nat)"
  by simp

lemma sign_bit_dneg: "sign_bit (dneg w) = (\<not> sign_bit w)"
  unfolding dneg_def by (rule sign_bit_pack [OF unat_mod_63])

lemma biased_exp_dneg: "biased_exp (dneg w) = biased_exp w"
proof -
  have "unat w mod (2 ^ 52 * 2 ^ 11) = 2 ^ 52 * (unat w div 2 ^ 52 mod 2 ^ 11) + unat w mod 2 ^ 52"
    by (rule mod_mult2_eq)
  then have "(unat w mod 2 ^ 63) div 2 ^ 52
             = (2 ^ 52 * (unat w div 2 ^ 52 mod 2 ^ 11) + unat w mod 2 ^ 52) div 2 ^ 52"
    by simp
  also have "\<dots> = unat w div 2 ^ 52 mod 2 ^ 11"
    by simp
  finally show ?thesis
    unfolding dneg_def biased_exp_pack [OF unat_mod_63] by (simp add: biased_exp_def)
qed

lemma fraction_dneg: "fraction (dneg w) = fraction w"
proof -
  have "(2::nat) ^ 52 dvd 2 ^ 63" by (intro le_imp_power_dvd) simp
  then have "unat w mod 2 ^ 63 mod 2 ^ 52 = unat w mod 2 ^ 52" by (rule mod_mod_cancel)
  then show ?thesis
    unfolding dneg_def fraction_pack [OF unat_mod_63] by (simp add: fraction_def)
qed

lemma dneg_fields:
  "isnan (dneg w) = isnan w" "is_inf (dneg w) = is_inf w" "is_zero (dneg w) = is_zero w"
  "mant (dneg w) = mant w" "expo (dneg w) = expo w"
  by (simp_all add: isnan_def is_inf_def is_zero_def mant_def expo_def biased_exp_dneg
      fraction_dneg)

lemma valof_dneg: "valof (dneg w) = - valof w"
  by (simp add: valof_def dneg_fields sign_bit_dneg)

lemma not_nan_pack: "n \<le> inf_bits \<Longrightarrow> \<not> isnan (pack s n)"
proof -
  assume le: "n \<le> inf_bits"
  then have n63: "n < 2 ^ 63" by (simp add: inf_bits_def)
  have "n mod 2 ^ 52 = 0" if "n div 2 ^ 52 = 2047"
  proof -
    have "n = 2047 * 2 ^ 52 + n mod 2 ^ 52"
      using that div_mult_mod_eq [of n "2 ^ 52"] by simp
    with le show ?thesis by (simp add: inf_bits_def)
  qed
  then show ?thesis
    by (auto simp: isnan_def biased_exp_pack [OF n63] fraction_pack [OF n63])
qed

lemma not_nan_round: "\<not> isnan (round_to_double s M E)"
  by (simp add: round_to_double_def not_nan_pack)

lemma finite_not_nan: "is_finite w \<Longrightarrow> \<not> isnan w \<and> \<not> is_inf w"
  by (simp add: is_finite_def isnan_def is_inf_def)

lemma not_nan_dadd: "is_finite a \<Longrightarrow> \<not> isnan b \<Longrightarrow> \<not> isnan (dadd a b)"
  by (simp add: dadd_def finite_not_nan not_nan_round not_nan_pack Let_def)

lemma not_nan_dsub: "is_finite a \<Longrightarrow> \<not> isnan b \<Longrightarrow> \<not> isnan (dsub a b)"
  by (simp add: dsub_def not_nan_dadd dneg_fields)

lemma accepts_nan: "isnan delta_H \<Longrightarrow> d = 1 \<or> d = - 1 \<Longrightarrow> accepts d delta_H"
  by (auto simp: accepts_def dgt_def dlt_def)

text \<open>
  C5, as the code has it. In every probe a NaN returned by \<^verbatim>\<open>H\<close> for the energy \<open>h\<close> after
  the step is replaced by \<open>+infinity\<close> before \<open>delta_H = H0 - h\<close> is computed; the energy
  \<open>H0\<close> before the step is used as \<^verbatim>\<open>H\<close> returns it. So \<open>delta_H\<close> is never NaN when \<open>H0\<close>
  is finite. When \<open>delta_H\<close> is NaN all the same, both comparisons with \<open>ln 0.8\<close> are
  false and the loop leaves by \<^verbatim>\<open>break\<close> at that probe: no error is raised for it.
\<close>

theorem nan_after_step_is_infinity:
  fixes s :: "('b, 'm, 'env, 'd) sampler"
  shows "fst (probe C s)
           = dsub (probe_H0 C s) (if isnan (probe_h C s) then d_inf else probe_h C s)
     \<and> (is_finite (probe_H0 C s) \<longrightarrow> \<not> isnan (fst (probe C s)))
     \<and> (isnan (fst (probe C (restart z0 s))) \<and> (d = 1 \<or> d = - 1) \<longrightarrow>
          loop_body C z0 d s = Break (snd (probe C (restart z0 s))))"
proof (intro conjI impI)
  show "fst (probe C s)
           = dsub (probe_H0 C s) (if isnan (probe_h C s) then d_inf else probe_h C s)"
    by (rule probe_delta)
  show "\<not> isnan (fst (probe C s))" if "is_finite (probe_H0 C s)"
    unfolding probe_delta using that by (intro not_nan_dsub) (simp_all add: isnan_consts)
  show "loop_body C z0 d s = Break (snd (probe C (restart z0 s)))"
    if "isnan (fst (probe C (restart z0 s))) \<and> (d = 1 \<or> d = - 1)"
    using that accepts_nan [of "fst (probe C (restart z0 s))" d]
    by (simp add: loop_body_eq Let_def)
qed

lemma stub_nan_break:
  "loop_body (stub_collaborators d_inf d_inf u) z0 (- 1) s
     = Break (s\<lparr>z := (ps_point_assign (z s) z0)\<lparr>q := [nom_epsilon s], p := [d_two]\<rparr>\<rparr>)"
  using dsub_inf_inf
  by (simp add: loop_body_eq Let_def stub_probe isnan_consts accepts_def dlt_def restart_def)

theorem nan_after_step_is_infinity_witness:
  "is_finite (probe_H0 (stub_collaborators d_zero d_nan d_half) (stub_sampler d_0_1 d_zero))
   \<and> \<not> isnan (fst (probe (stub_collaborators d_zero d_nan d_half) (stub_sampler d_0_1 d_zero)))
   \<and> isnan (fst (probe (stub_collaborators d_inf d_inf d_half)
               (restart stub_point (stub_sampler d_0_1 d_zero))))
   \<and> loop_body (stub_collaborators d_inf d_inf d_half) stub_point (- 1)
         (stub_sampler d_0_1 d_zero)
       = Break (snd (probe (stub_collaborators d_inf d_inf d_half)
                  (restart stub_point (stub_sampler d_0_1 d_zero))))"
proof -
  have fin: "is_finite (probe_H0 (stub_collaborators d_zero d_nan d_half)
               (stub_sampler d_0_1 d_zero))"
    by (simp add: stub_energies is_finite_def biased_exp_def d_zero_def)
  have nan: "isnan (fst (probe (stub_collaborators d_inf d_inf d_half)
               (restart stub_point (stub_sampler d_0_1 d_zero))))"
    using dsub_inf_inf by (simp add: stub_probe isnan_consts)
  from nan_after_step_is_infinity [of "stub_collaborators d_zero d_nan d_half"
      "stub_sampler d_0_1 d_zero"] fin
  have a: "\<not> isnan (fst (probe (stub_collaborators d_zero d_nan d_half)
               (stub_sampler d_0_1 d_zero)))"
    by blast
  from nan_after_step_is_infinity [of "stub_collaborators d_inf d_inf d_half"
      "stub_sampler d_0_1 d_zero" stub_point "- 1"] nan
  have b: "loop_body (stub_collaborators d_inf d_inf d_half) stub_point (- 1)
         (stub_sampler d_0_1 d_zero)
       = Break (snd (probe (stub_collaborators d_inf d_inf d_half)
                  (restart stub_point (stub_sampler d_0_1 d_zero))))"
    by blast
  from fin a nan b show ?thesis by simp
qed

text \<open>
  The claim as stated fails for \<open>H0\<close>: with a Hamiltonian that returns NaN before the
  step, \<open>delta_H\<close> is NaN when it is compared with \<open>ln 0.8\<close>.
\<close>

theorem nan_H0_reaches_comparison:
  "isnan (probe_H0 (stub_collaborators d_nan d_zero d_half) (stub_sampler d_0_1 d_zero))
   \<and> isnan (fst (probe (stub_collaborators d_nan d_zero d_half) (stub_sampler d_0_1 d_zero)))"
  by (simp add: stub_energies stub_probe isnan_consts dsub_def dadd_def)

section \<open>Termination of the search\<close>

lemma loop_passes_init_loop:
  "loop_passes n C z0 d s = Some r \<Longrightarrow> init_loop C z0 d s = Some r"
proof (induction n arbitrary: s)
  case 0
  then show ?case by simp
next
  case (Suc n)
  show ?case
  proof (cases "loop_body C z0 d s")
    case (Break s')
    with Suc.prems init_loop_break [OF Break] show ?thesis by simp
  next
    case (Throw e s')
    with Suc.prems init_loop_throw [OF Throw] show ?thesis by simp
  next
    case (Continue s')
    with Suc.prems have "loop_passes n C z0 d s' = Some r" by simp
    from Suc.IH [OF this] init_loop_continue [OF Continue] show ?thesis by simp
  qed
qed

lemma loop_body_continue:
  assumes "loop_body C z0 d s = Continue s'"
  shows "nom_epsilon s' = scaled d (nom_epsilon s)"
    and "\<not> dgt (nom_epsilon s') d_1e7" and "\<not> deq (nom_epsilon s') d_zero"
  using assms by (auto simp: loop_body_eq Let_def split: if_splits)

lemma rising_step:
  assumes "0 < valof (nom_epsilon s)" and "valof (nom_epsilon s) \<le> 10000000"
    and "loop_body C z0 1 s = Continue s'"
  shows "valof (nom_epsilon s') = 2 * valof (nom_epsilon s)"
    and "valof (nom_epsilon s') \<le> 10000000"
proof -
  note c = loop_body_continue [OF assms(3)]
  have e: "nom_epsilon s' = dmul d_two (nom_epsilon s)" using c(1) by (simp add: scaled_def)
  note d = dmul_two [OF assms(1,2)]
  show "valof (nom_epsilon s') = 2 * valof (nom_epsilon s)" using d(2) by (simp add: e)
  show "valof (nom_epsilon s') \<le> 10000000" using c(2) d(1) by (simp add: e dgt_1e7_iff)
qed

lemma falling_step:
  assumes "0 < valof (nom_epsilon s)" and "valof (nom_epsilon s) \<le> 10000000"
    and "loop_body C z0 (- 1) s = Continue s'"
  shows "0 < valof (nom_epsilon s')" and "valof (nom_epsilon s') \<le> 10000000"
    and "ulps (nom_epsilon s') < ulps (nom_epsilon s)"
proof -
  note c = loop_body_continue [OF assms(3)]
  have e: "nom_epsilon s' = dmul d_half (nom_epsilon s)" using c(1) by (simp add: scaled_def)
  note d = dmul_half [OF assms(1,2)]
  show "0 < valof (nom_epsilon s')" using c(3) d(1,2) by (simp add: e deq_zero_iff)
  show "valof (nom_epsilon s') \<le> 10000000" using d(3) assms(2) by (simp add: e)
  show "ulps (nom_epsilon s') < ulps (nom_epsilon s)" using d(4) by (simp add: e)
qed

lemma rising_terminates:
  assumes "0 < valof (nom_epsilon s)" and "valof (nom_epsilon s) \<le> 10000000"
    and "10000000 < valof (nom_epsilon s) * 2 ^ n"
  shows "\<exists>r. loop_passes n C z0 1 s = Some r"
  using assms
proof (induction n arbitrary: s)
  case 0
  then show ?case by simp
next
  case (Suc n)
  show ?case
  proof (cases "loop_body C z0 1 s")
    case (Continue s')
    note st = rising_step [OF Suc.prems(1,2) Continue]
    have "0 < valof (nom_epsilon s')" using st(1) Suc.prems(1) by simp
    moreover have "10000000 < valof (nom_epsilon s') * 2 ^ n"
      using st(1) Suc.prems(3) by simp
    ultimately obtain r where "loop_passes n C z0 1 s' = Some r"
      using Suc.IH [of s'] st(2) by blast
    with Continue show ?thesis by simp
  qed simp_all
qed

lemma falling_terminates:
  assumes "0 < valof (nom_epsilon s)" and "valof (nom_epsilon s) \<le> 10000000"
    and "ulps (nom_epsilon s) \<le> k"
  shows "\<exists>r. loop_passes (Suc k) C z0 (- 1) s = Some r"
  using assms
proof (induction k arbitrary: s)
  case 0
  from finite_of_small [OF 0(1,2)] have "valof (nom_epsilon s) = real (ulps (nom_epsilon s)) * pow2 (- 1074)"
    by (simp add: valof_unsigned valof_ulps)
  with 0 show ?case by simp
next
  case (Suc k)
  show ?case
  proof (cases "loop_body C z0 (- 1) s")
    case (Continue s')
    note st = falling_step [OF Suc.prems(1,2) Continue]
    have "ulps (nom_epsilon s') \<le> k" using st(3) Suc.prems(3) by simp
    from Suc.IH [OF st(1,2) this] Continue show ?thesis by simp
  qed simp_all
qed

lemma exists_power_above: "0 < (v::real) \<Longrightarrow> \<exists>n. c < v * 2 ^ n"
proof -
  assume v: "0 < v"
  obtain n where "c / v < 2 ^ n"
    using real_arch_pow [of 2 "c / v"] by auto
  then have "c < v * 2 ^ n" using v by (simp add: field_simps)
  then show ?thesis ..
qed

lemma loop_terminates:
  fixes s :: "('b, 'm, 'env, 'd) sampler"
  assumes "0 < valof (nom_epsilon s)" and "valof (nom_epsilon s) \<le> 10000000"
    and "d = 1 \<or> d = - 1"
  shows "\<exists>n (r :: ('b, 'm, 'env, 'd) outcome). loop_passes n C z0 d s = Some r"
proof -
  from assms(3) show ?thesis
  proof
    assume d: "d = 1"
    from exists_power_above [OF assms(1)] obtain n
      where "10000000 < valof (nom_epsilon s) * 2 ^ n" by blast
    from rising_terminates [OF assms(1,2) this] show ?thesis unfolding d by blast
  next
    assume d: "d = - 1"
    from falling_terminates [OF assms(1,2) order_refl] show ?thesis unfolding d by blast
  qed
qed

lemma accepts_sides:
  assumes "accepts d delta_H"
  shows "d = 1 \<longrightarrow> \<not> dgt delta_H log_0_8 \<and> (\<not> isnan delta_H \<longrightarrow> dle delta_H log_0_8)"
    and "d = - 1 \<longrightarrow> \<not> dlt delta_H log_0_8 \<and> (\<not> isnan delta_H \<longrightarrow> dge delta_H log_0_8)"
  using assms
  by (auto simp: accepts_def dgt_def dlt_def dle_def dge_def isnan_consts)

text \<open>
  C2, as the code has it. From a nominal step size in \<open>(0, 1e7]\<close>, whatever the
  collaborators return, the loop ends within finitely many passes and \<^verbatim>\<open>init_stepsize\<close>
  returns or throws. When it returns, the sampler is the one the last probe left, with
  the point restored, and that probe's \<open>delta_H\<close> is not on the continuing side for the
  direction the first probe fixed: not above \<open>ln 0.8\<close> for \<open>+1\<close>, not below it for \<open>- 1\<close>.
  That is \<open>delta_H \<le> ln 0.8\<close>, respectively \<open>delta_H \<ge> ln 0.8\<close>, whenever \<open>delta_H\<close> is not
  NaN.
\<close>

theorem search_terminates:
  fixes s :: "('b, 'm, 'env, 'd) sampler"
  assumes "0 < valof (nom_epsilon s)" and "valof (nom_epsilon s) \<le> 10000000"
  shows "let z_init = ps_point_copy (z s);
             direction = (if dgt (fst (probe C s)) log_0_8 then 1 else - 1)
         in (\<exists>n (r :: ('b, 'm, 'env, 'd) outcome).
               loop_passes n C z_init direction (snd (probe C s)) = Some r)
          \<and> (\<exists>r. init_stepsize C s = Some r)
          \<and> (\<forall>s'. init_stepsize C s = Some (Inr s') \<longrightarrow>
               (\<exists>t :: ('b, 'm, 'env, 'd) sampler.
                  s' = restart z_init (snd (probe C (restart z_init t)))
                  \<and> (let delta_H = fst (probe C (restart z_init t))
                     in (direction = 1 \<longrightarrow>
                           \<not> dgt delta_H log_0_8
                           \<and> (\<not> isnan delta_H \<longrightarrow> dle delta_H log_0_8))
                      \<and> (direction = - 1 \<longrightarrow>
                           \<not> dlt delta_H log_0_8
                           \<and> (\<not> isnan delta_H \<longrightarrow> dge delta_H log_0_8)))))"
proof -
  let ?z0 = "ps_point_copy (z s)"
  let ?d = "if dgt (fst (probe C s)) log_0_8 then 1 else - 1 :: int"
  let ?s1 = "snd (probe C s)"
  note fin = finite_of_small [OF assms]
  have run: "\<not> deq (nom_epsilon s) d_zero" "\<not> dgt (nom_epsilon s) d_1e7"
    using assms by (simp_all add: deq_zero_iff dgt_1e7_iff)
  have d: "?d = 1 \<or> ?d = - 1" by simp
  have "0 < valof (nom_epsilon ?s1)" "valof (nom_epsilon ?s1) \<le> 10000000"
    using assms by (simp_all add: probe_frame)
  from loop_terminates [OF this d, of C ?z0] obtain n and r :: "('b, 'm, 'env, 'd) outcome"
    where passes: "loop_passes n C ?z0 ?d ?s1 = Some r" by blast
  have loop: "init_loop C ?z0 ?d ?s1 = Some r" by (rule loop_passes_init_loop [OF passes])
  have ends: "\<exists>r. init_stepsize C s = Some r"
    unfolding init_stepsize_run [OF run] loop by (cases r) auto
  have acc: "\<exists>t :: ('b, 'm, 'env, 'd) sampler.
                  s' = restart ?z0 (snd (probe C (restart ?z0 t)))
                  \<and> (let delta_H = fst (probe C (restart ?z0 t))
                     in (?d = 1 \<longrightarrow>
                           \<not> dgt delta_H log_0_8
                           \<and> (\<not> isnan delta_H \<longrightarrow> dle delta_H log_0_8))
                      \<and> (?d = - 1 \<longrightarrow>
                           \<not> dlt delta_H log_0_8
                           \<and> (\<not> isnan delta_H \<longrightarrow> dge delta_H log_0_8)))"
    if ret: "init_stepsize C s = Some (Inr s')" for s'
  proof -
    obtain s2 where r: "r = Inr s2" and s': "s' = restart ?z0 s2"
      using ret unfolding init_stepsize_run [OF run] loop by (cases r) auto
    from init_loop_accepted [OF loop] r obtain t :: "('b, 'm, 'env, 'd) sampler"
      where t: "s2 = snd (probe C (restart ?z0 t))"
        and a: "accepts ?d (fst (probe C (restart ?z0 t)))"
      by auto
    from accepts_sides [OF a] s' t show ?thesis
      unfolding Let_def by blast
  qed
  from passes ends acc show ?thesis unfolding Let_def by blast
qed

lemma stub_nan_delta:
  "isnan (fst (probe (stub_collaborators d_inf d_inf u) s))"
  using dsub_inf_inf by (simp add: stub_probe isnan_consts)

theorem search_terminates_witness:
  "0 < valof (nom_epsilon (stub_sampler d_0_1 d_zero))
   \<and> valof (nom_epsilon (stub_sampler d_0_1 d_zero)) \<le> 10000000
   \<and> init_stepsize (stub_collaborators d_inf d_inf d_half) (stub_sampler d_0_1 d_zero)
       = Some (Inr (stub_sampler d_0_1 d_zero))
   \<and> (\<exists>t :: (unit, unit, nat, unit) sampler.
         stub_sampler d_0_1 d_zero
           = restart stub_point
               (snd (probe (stub_collaborators d_inf d_inf d_half) (restart stub_point t)))
         \<and> \<not> dlt (fst (probe (stub_collaborators d_inf d_inf d_half) (restart stub_point t)))
               log_0_8)"
proof -
  let ?C = "stub_collaborators d_inf d_inf d_half"
  let ?s = "stub_sampler d_0_1 d_zero"
  have h1: "0 < valof (nom_epsilon ?s)" by (simp add: stub_sampler_fields valof_0_1)
  have h2: "valof (nom_epsilon ?s) \<le> 10000000" by (simp add: stub_sampler_fields valof_0_1)
  have dir: "\<not> dgt (fst (probe ?C ?s)) log_0_8"
    using stub_nan_delta [of d_half ?s] by (simp add: dgt_def dlt_def)
  have z0: "ps_point_copy (z ?s) = stub_point"
    by (simp add: stub_sampler_fields ps_point_copy_def stub_point_def)
  from search_terminates [OF h1 h2, of ?C] stub_nan_run [of d_half d_zero]
  have "\<exists>t :: (unit, unit, nat, unit) sampler.
         ?s = restart stub_point (snd (probe ?C (restart stub_point t)))
         \<and> \<not> dlt (fst (probe ?C (restart stub_point t))) log_0_8"
    unfolding Let_def z0 using dir by auto
  with h1 h2 stub_nan_run [of d_half d_zero] show ?thesis by blast
qed

text \<open>
  The claim as stated fails when \<open>delta_H\<close> is NaN. With a Hamiltonian whose energy is
  \<open>+infinity\<close> before and after the step, which its contract in the spec allows,
  \<open>delta_H = inf - inf\<close> is NaN in every probe: the first probe fixes the direction \<open>- 1\<close>,
  the first pass of the loop leaves by \<^verbatim>\<open>break\<close>, the search returns, and the \<open>delta_H\<close> of
  that last probe is not \<open>\<ge> ln 0.8\<close>.
\<close>

theorem accepted_with_nan_delta_H:
  "init_stepsize (stub_collaborators d_inf d_inf d_half) (stub_sampler d_0_1 d_zero)
     = Some (Inr (stub_sampler d_0_1 d_zero))
   \<and> \<not> dgt (fst (probe (stub_collaborators d_inf d_inf d_half) (stub_sampler d_0_1 d_zero)))
         log_0_8
   \<and> loop_body (stub_collaborators d_inf d_inf d_half) stub_point (- 1)
         (snd (probe (stub_collaborators d_inf d_inf d_half) (stub_sampler d_0_1 d_zero)))
       = Break (snd (probe (stub_collaborators d_inf d_inf d_half)
           (restart stub_point
              (snd (probe (stub_collaborators d_inf d_inf d_half)
                 (stub_sampler d_0_1 d_zero))))))
   \<and> \<not> dge (fst (probe (stub_collaborators d_inf d_inf d_half)
           (restart stub_point
              (snd (probe (stub_collaborators d_inf d_inf d_half)
                 (stub_sampler d_0_1 d_zero))))))
         log_0_8"
proof -
  let ?C = "stub_collaborators d_inf d_inf d_half"
  let ?s1 = "snd (probe ?C (stub_sampler d_0_1 d_zero))"
  have "loop_body ?C stub_point (- 1) ?s1 = Break (snd (probe ?C (restart stub_point ?s1)))"
    using stub_nan_delta [of d_half "restart stub_point ?s1"]
    by (simp add: loop_body_eq Let_def accepts_def dlt_def)
  then show ?thesis
    using stub_nan_run [of d_half d_zero] stub_nan_delta [of d_half "stub_sampler d_0_1 d_zero"]
      stub_nan_delta [of d_half "restart stub_point ?s1"]
    by (simp add: dgt_def dlt_def dge_def dle_def)
qed

section \<open>Scaling and the fatal errors\<close>

lemma floor_log2_bounds:
  assumes "1 \<le> (x::real)"
  shows "2 ^ nat \<lfloor>log 2 x\<rfloor> \<le> x" and "x < 2 ^ Suc (nat \<lfloor>log 2 x\<rfloor>)"
proof -
  let ?n = "nat \<lfloor>log 2 x\<rfloor>"
  have x: "0 < x" using assms by simp
  have l0: "0 \<le> log 2 x" using assms by simp
  then have n: "real ?n = of_int \<lfloor>log 2 x\<rfloor>" by simp
  have "real ?n \<le> log 2 x" unfolding n by simp
  then have "2 powr real ?n \<le> 2 powr log 2 x" by simp
  then show "2 ^ ?n \<le> x" using x by (simp add: powr_realpow)
  have "log 2 x < real (Suc ?n)" using n by (simp add: floor_less_iff [symmetric]) linarith
  then have "2 powr log 2 x < 2 powr real (Suc ?n)" by (simp only: powr_less_cancel_iff one_less_numeral_iff semiring_norm)
  then show "x < 2 ^ Suc ?n" using x by (simp only: powr_realpow powr_log_cancel)
qed

lemma rising_throw_or_continue:
  fixes s :: "('b, 'm, 'env, 'd) sampler"
  assumes always: "\<And>t :: ('b, 'm, 'env, 'd) sampler. dgt (fst (probe C t)) log_0_8"
    and "0 < valof (nom_epsilon s)" and "valof (nom_epsilon s) \<le> 10000000"
  shows "loop_body C z0 1 s =
           (if 10000000 < 2 * valof (nom_epsilon s)
            then Throw improper_posterior
                   ((snd (probe C (restart z0 s)))\<lparr>nom_epsilon := dmul d_two (nom_epsilon s)\<rparr>)
            else Continue
                   ((snd (probe C (restart z0 s)))\<lparr>nom_epsilon := dmul d_two (nom_epsilon s)\<rparr>))"
proof -
  note d = dmul_two [OF assms(2,3)]
  have "\<not> accepts 1 (fst (probe C (restart z0 s)))"
    using always [of "restart z0 s"] by (simp add: accepts_def)
  moreover have "\<not> deq (dmul d_two (nom_epsilon s)) d_zero"
    using d assms(2) by (simp add: deq_zero_iff)
  moreover have "dgt (dmul d_two (nom_epsilon s)) d_1e7 \<longleftrightarrow> 10000000 < 2 * valof (nom_epsilon s)"
    using d by (simp add: dgt_1e7_iff)
  ultimately show ?thesis
    by (simp add: loop_body_eq Let_def scaled_def)
qed

lemma rising_exact:
  fixes s :: "('b, 'm, 'env, 'd) sampler"
  assumes always: "\<And>t :: ('b, 'm, 'env, 'd) sampler. dgt (fst (probe C t)) log_0_8"
    and "0 < valof (nom_epsilon s)"
    and "valof (nom_epsilon s) * 2 ^ n \<le> 10000000"
    and "10000000 < valof (nom_epsilon s) * 2 ^ Suc n"
  shows "\<exists>s'. loop_passes (Suc n) C z0 1 s = Some (Inl (improper_posterior, s'))
             \<and> loop_passes n C z0 1 s = None"
  using assms(2-)
proof (induction n arbitrary: s)
  case 0
  then have "valof (nom_epsilon s) \<le> 10000000" by simp
  from rising_throw_or_continue [OF always 0(1) this, of z0] 0(3)
  show ?case by simp
next
  case (Suc n)
  have "(1::real) \<le> 2 ^ Suc n" by (rule one_le_power) simp
  then have "valof (nom_epsilon s) * 1 \<le> valof (nom_epsilon s) * 2 ^ Suc n"
    using Suc.prems(1) by (intro mult_left_mono) simp_all
  with Suc.prems(2) have le: "valof (nom_epsilon s) \<le> 10000000" by simp
  have "(1::real) \<le> 2 ^ n" by (rule one_le_power) simp
  then have "2 * valof (nom_epsilon s) * 1 \<le> 2 * valof (nom_epsilon s) * 2 ^ n"
    using Suc.prems(1) by (intro mult_left_mono) simp_all
  with Suc.prems(2) have le2: "\<not> 10000000 < 2 * valof (nom_epsilon s)" by simp
  let ?s2 = "(snd (probe C (restart z0 s)))\<lparr>nom_epsilon := dmul d_two (nom_epsilon s)\<rparr>"
  have body: "loop_body C z0 1 s = Continue ?s2"
    using rising_throw_or_continue [OF always Suc.prems(1) le, of z0] le2 by simp
  have v: "valof (nom_epsilon ?s2) = 2 * valof (nom_epsilon s)"
    using dmul_two(2) [OF Suc.prems(1) le] by simp
  have p1: "0 < valof (nom_epsilon ?s2)" using v Suc.prems(1) by simp
  have p2: "valof (nom_epsilon ?s2) * 2 ^ n \<le> 10000000" using v Suc.prems(2) by simp
  have p3: "10000000 < valof (nom_epsilon ?s2) * 2 ^ Suc n" using v Suc.prems(3) by simp
  from Suc.IH [OF p1 p2 p3] show ?case using body by simp
qed

lemma falling_throw_or_continue:
  fixes s :: "('b, 'm, 'env, 'd) sampler"
  assumes always: "\<And>t :: ('b, 'm, 'env, 'd) sampler. dlt (fst (probe C t)) log_0_8"
    and "0 < valof (nom_epsilon s)" and "valof (nom_epsilon s) \<le> 10000000"
  shows "loop_body C z0 (- 1) s =
           (if valof (dmul d_half (nom_epsilon s)) = 0
            then Throw no_small_stepsize
                   ((snd (probe C (restart z0 s)))\<lparr>nom_epsilon := dmul d_half (nom_epsilon s)\<rparr>)
            else Continue
                   ((snd (probe C (restart z0 s)))\<lparr>nom_epsilon := dmul d_half (nom_epsilon s)\<rparr>))"
proof -
  note d = dmul_half [OF assms(2,3)]
  have "\<not> accepts (- 1) (fst (probe C (restart z0 s)))"
    using always [of "restart z0 s"] by (simp add: accepts_def)
  moreover have "\<not> dgt (dmul d_half (nom_epsilon s)) d_1e7"
    using d(3) assms(3) by (simp add: dgt_1e7_iff)
  moreover have "deq (dmul d_half (nom_epsilon s)) d_zero
                 \<longleftrightarrow> valof (dmul d_half (nom_epsilon s)) = 0"
    using d(1) by (simp add: deq_zero_iff)
  ultimately show ?thesis
    by (simp add: loop_body_eq Let_def scaled_def)
qed

lemma falling_throws:
  fixes s :: "('b, 'm, 'env, 'd) sampler"
  assumes always: "\<And>t :: ('b, 'm, 'env, 'd) sampler. dlt (fst (probe C t)) log_0_8"
    and "0 < valof (nom_epsilon s)" and "valof (nom_epsilon s) \<le> 10000000"
    and "ulps (nom_epsilon s) \<le> k"
  shows "\<exists>s'. loop_passes (Suc k) C z0 (- 1) s = Some (Inl (no_small_stepsize, s'))"
  using assms(2-)
proof (induction k arbitrary: s)
  case 0
  from finite_of_small [OF 0(1,2)]
  have "valof (nom_epsilon s) = real (ulps (nom_epsilon s)) * pow2 (- 1074)"
    by (simp add: valof_unsigned valof_ulps)
  with 0 show ?case by simp
next
  case (Suc k)
  let ?s2 = "(snd (probe C (restart z0 s)))\<lparr>nom_epsilon := dmul d_half (nom_epsilon s)\<rparr>"
  note body = falling_throw_or_continue [OF always Suc.prems(1,2), of z0]
  note d = dmul_half [OF Suc.prems(1,2)]
  show ?case
  proof (cases "valof (dmul d_half (nom_epsilon s)) = 0")
    case True
    with body show ?thesis by simp
  next
    case False
    have p1: "0 < valof (nom_epsilon ?s2)" using False d(2) by simp
    have p2: "valof (nom_epsilon ?s2) \<le> 10000000" using d(3) Suc.prems(2) by simp
    have p3: "ulps (nom_epsilon ?s2) \<le> k" using d(4) Suc.prems(3) by simp
    from Suc.IH [OF p1 p2 p3] False body show ?thesis by simp
  qed
qed

lemma normal_biased_exp:
  assumes "pow2 (- 1021) \<le> valof w"
  shows "2 \<le> biased_exp w"
proof (rule ccontr)
  assume "\<not> 2 \<le> biased_exp w"
  then have B: "biased_exp w \<le> 1" by simp
  then have e: "expo w = - 1074" by (auto simp: expo_def)
  have pos: "0 < valof w" using assms pow2_pos [of "- 1021"] by linarith
  have "real (mant w) < 2 ^ 53"
    using mant_less [of w] by (metis of_nat_less_iff of_nat_numeral of_nat_power)
  then have "real (mant w) * pow2 (- 1074) < 2 ^ 53 * pow2 (- 1074)"
    by (intro mult_strict_right_mono) simp_all
  also have "\<dots> = pow2 (53 + (- 1074))" by (simp only: pow2_add) (simp add: pow2_def)
  finally have "real (mant w) * pow2 (expo w) < pow2 (- 1021)" by (simp add: e)
  then have "valof w < pow2 (- 1021)" by (simp only: valof_pos [OF pos])
  with assms show False by simp
qed

lemma scaling_step:
  assumes "d = 1 \<or> d = - 1" and "\<not> accepts d (fst (probe C (restart z0 s)))"
  shows "let eps = (if d = 1 then dmul d_two (nom_epsilon s) else dmul d_half (nom_epsilon s));
             s2 = (snd (probe C (restart z0 s)))\<lparr>nom_epsilon := eps\<rparr>
         in loop_body C z0 d s =
              (if dgt eps d_1e7 then Throw improper_posterior s2
               else if deq eps d_zero then Throw no_small_stepsize s2
               else Continue s2)"
  using assms(2) by (simp add: loop_body_eq Let_def scaled_def)

lemma rising_raises:
  fixes s :: "('b, 'm, 'env, 'd) sampler"
  assumes "0 < valof (nom_epsilon s)" and "valof (nom_epsilon s) \<le> 10000000"
    and always: "\<forall>t :: ('b, 'm, 'env, 'd) sampler. dgt (fst (probe C t)) log_0_8"
  shows "\<exists>s'. init_stepsize C s = Some (Inl (improper_posterior, s'))
           \<and> loop_passes (nat \<lfloor>log 2 (10000000 / valof (nom_epsilon s))\<rfloor> + 1) C
               (ps_point_copy (z s)) 1 (snd (probe C s)) = Some (Inl (improper_posterior, s'))
           \<and> loop_passes (nat \<lfloor>log 2 (10000000 / valof (nom_epsilon s))\<rfloor>) C
               (ps_point_copy (z s)) 1 (snd (probe C s)) = None"
proof -
  let ?v = "valof (nom_epsilon s)"
  let ?n = "nat \<lfloor>log 2 (10000000 / ?v)\<rfloor>"
  let ?s1 = "snd (probe C s)"
  have run: "\<not> deq (nom_epsilon s) d_zero" "\<not> dgt (nom_epsilon s) d_1e7"
    using assms(1,2) finite_of_small [OF assms(1,2)] by (simp_all add: deq_zero_iff dgt_1e7_iff)
  have "1 \<le> 10000000 / ?v" using assms(1,2) by simp
  from floor_log2_bounds [OF this]
  have lo: "?v * 2 ^ ?n \<le> 10000000" and hi: "10000000 < ?v * 2 ^ Suc ?n"
    using assms(1) by (simp_all add: field_simps)
  have al: "dgt (fst (probe C t)) log_0_8" for t :: "('b, 'm, 'env, 'd) sampler"
    using always by blast
  have e: "nom_epsilon ?s1 = nom_epsilon s" by (rule probe_frame)
  from rising_exact [of C ?s1 ?n "ps_point_copy (z s)", OF al] assms(1) lo hi
  obtain s' where p: "loop_passes (Suc ?n) C (ps_point_copy (z s)) 1 ?s1
                        = Some (Inl (improper_posterior, s'))"
    and q: "loop_passes ?n C (ps_point_copy (z s)) 1 ?s1 = None"
    unfolding e by blast
  have "init_stepsize C s = Some (Inl (improper_posterior, s'))"
    unfolding init_stepsize_run [OF run] using al [of s] loop_passes_init_loop [OF p] by simp
  with p q show ?thesis by auto
qed

lemma falling_raises:
  fixes s :: "('b, 'm, 'env, 'd) sampler"
  assumes "0 < valof (nom_epsilon s)" and "valof (nom_epsilon s) \<le> 10000000"
    and always: "\<forall>t :: ('b, 'm, 'env, 'd) sampler. dlt (fst (probe C t)) log_0_8"
  shows "\<exists>s'. init_stepsize C s = Some (Inl (no_small_stepsize, s'))"
proof -
  let ?s1 = "snd (probe C s)"
  have run: "\<not> deq (nom_epsilon s) d_zero" "\<not> dgt (nom_epsilon s) d_1e7"
    using assms(1,2) finite_of_small [OF assms(1,2)] by (simp_all add: deq_zero_iff dgt_1e7_iff)
  have al: "dlt (fst (probe C t)) log_0_8" for t :: "('b, 'm, 'env, 'd) sampler"
    using always by blast
  have dir: "\<not> dgt (fst (probe C s)) log_0_8"
    using al [of s] by (auto simp: dgt_def dlt_def)
  have e: "nom_epsilon ?s1 = nom_epsilon s" by (rule probe_frame)
  from falling_throws [of C ?s1 "ulps (nom_epsilon s)" "ps_point_copy (z s)", OF al] assms(1,2)
  obtain s' where "loop_passes (Suc (ulps (nom_epsilon s))) C (ps_point_copy (z s)) (- 1) ?s1
                     = Some (Inl (no_small_stepsize, s'))"
    unfolding e by blast
  from loop_passes_init_loop [OF this]
  have "init_stepsize C s = Some (Inl (no_small_stepsize, s'))"
    unfolding init_stepsize_run [OF run] using dir by simp
  then show ?thesis ..
qed

text \<open>
  C3, as the code has it. A pass of the loop that does not accept sets the nominal step
  size to \<^verbatim>\<open>2.0 * nom_epsilon_\<close> when the direction is \<open>+1\<close> and to \<^verbatim>\<open>0.5 * nom_epsilon_\<close>
  when it is \<open>- 1\<close>, then throws "Posterior is improper" if the new value is above \<open>1e7\<close>,
  else throws "No acceptably small step size" if it is 0, else goes round again. From a
  step size in \<open>(0, 1e7]\<close> the product by 2 is exact, and the product by 0.5 is exact
  down to the smallest normal numbers (below, halving rounds, and so reaches 0). If
  every probe has \<open>delta_H > ln 0.8\<close> the first error is thrown by pass number
  \<open>floor (log2 (1e7 / eps0)) + 1\<close> and not before; if every probe has \<open>delta_H < ln 0.8\<close>
  the second error is thrown.
\<close>

theorem scaling_and_fatal_errors:
  fixes s :: "('b, 'm, 'env, 'd) sampler"
  shows
    "((d = 1 \<or> d = - 1) \<and> \<not> accepts d (fst (probe C (restart z0 s))) \<longrightarrow>
        (let eps = (if d = 1 then dmul d_two (nom_epsilon s) else dmul d_half (nom_epsilon s));
             s2 = (snd (probe C (restart z0 s)))\<lparr>nom_epsilon := eps\<rparr>
         in loop_body C z0 d s =
              (if dgt eps d_1e7 then Throw improper_posterior s2
               else if deq eps d_zero then Throw no_small_stepsize s2
               else Continue s2)))
     \<and> (0 < valof (nom_epsilon s) \<and> valof (nom_epsilon s) \<le> 10000000 \<longrightarrow>
          valof (dmul d_two (nom_epsilon s)) = 2 * valof (nom_epsilon s)
          \<and> (pow2 (- 1021) \<le> valof (nom_epsilon s) \<longrightarrow>
               valof (dmul d_half (nom_epsilon s)) = valof (nom_epsilon s) / 2))
     \<and> (0 < valof (nom_epsilon s) \<and> valof (nom_epsilon s) \<le> 10000000
          \<and> (\<forall>t :: ('b, 'm, 'env, 'd) sampler. dgt (fst (probe C t)) log_0_8) \<longrightarrow>
          (\<exists>s'. init_stepsize C s = Some (Inl (improper_posterior, s'))
             \<and> loop_passes (nat \<lfloor>log 2 (10000000 / valof (nom_epsilon s))\<rfloor> + 1) C
                 (ps_point_copy (z s)) 1 (snd (probe C s)) = Some (Inl (improper_posterior, s'))
             \<and> loop_passes (nat \<lfloor>log 2 (10000000 / valof (nom_epsilon s))\<rfloor>) C
                 (ps_point_copy (z s)) 1 (snd (probe C s)) = None))
     \<and> (0 < valof (nom_epsilon s) \<and> valof (nom_epsilon s) \<le> 10000000
          \<and> (\<forall>t :: ('b, 'm, 'env, 'd) sampler. dlt (fst (probe C t)) log_0_8) \<longrightarrow>
          (\<exists>s'. init_stepsize C s = Some (Inl (no_small_stepsize, s'))))"
proof (intro conjI impI; (elim conjE)?)
  assume "d = 1 \<or> d = - 1" and "\<not> accepts d (fst (probe C (restart z0 s)))"
  then show "let eps = (if d = 1 then dmul d_two (nom_epsilon s) else dmul d_half (nom_epsilon s));
             s2 = (snd (probe C (restart z0 s)))\<lparr>nom_epsilon := eps\<rparr>
         in loop_body C z0 d s =
              (if dgt eps d_1e7 then Throw improper_posterior s2
               else if deq eps d_zero then Throw no_small_stepsize s2
               else Continue s2)"
    by (rule scaling_step)
next
  assume "0 < valof (nom_epsilon s)" and "valof (nom_epsilon s) \<le> 10000000"
  then show "valof (dmul d_two (nom_epsilon s)) = 2 * valof (nom_epsilon s)"
    by (rule dmul_two(2))
next
  assume a: "0 < valof (nom_epsilon s)" "valof (nom_epsilon s) \<le> 10000000"
    and "pow2 (- 1021) \<le> valof (nom_epsilon s)"
  then have "2 \<le> biased_exp (nom_epsilon s)" by (intro normal_biased_exp)
  then show "valof (dmul d_half (nom_epsilon s)) = valof (nom_epsilon s) / 2"
    by (rule dmul_half(5) [OF a])
next
  assume "0 < valof (nom_epsilon s)" and "valof (nom_epsilon s) \<le> 10000000"
    and "\<forall>t :: ('b, 'm, 'env, 'd) sampler. dgt (fst (probe C t)) log_0_8"
  then show "\<exists>s'. init_stepsize C s = Some (Inl (improper_posterior, s'))
             \<and> loop_passes (nat \<lfloor>log 2 (10000000 / valof (nom_epsilon s))\<rfloor> + 1) C
                 (ps_point_copy (z s)) 1 (snd (probe C s)) = Some (Inl (improper_posterior, s'))
             \<and> loop_passes (nat \<lfloor>log 2 (10000000 / valof (nom_epsilon s))\<rfloor>) C
                 (ps_point_copy (z s)) 1 (snd (probe C s)) = None"
    by (rule rising_raises)
next
  assume "0 < valof (nom_epsilon s)" and "valof (nom_epsilon s) \<le> 10000000"
    and "\<forall>t :: ('b, 'm, 'env, 'd) sampler. dlt (fst (probe C t)) log_0_8"
  then show "\<exists>s'. init_stepsize C s = Some (Inl (no_small_stepsize, s'))"
    by (rule falling_raises)
qed

lemma stub_rising_always: "dgt (fst (probe (stub_collaborators d_zero d_zero u) t)) log_0_8"
  by (simp add: stub_probe isnan_consts dsub_zero_zero dgt_zero_log)

lemma d_inf_fields: "is_inf d_inf" "\<not> is_inf d_zero" "1 \<le> valof d_inf"
  by (simp_all add: is_inf_def valof_def field_defs d_inf_def d_zero_def)

lemma dsub_zero_inf: "dsub d_zero d_inf = dneg d_inf"
  by (simp add: dsub_def dadd_def dneg_fields isnan_consts d_inf_fields)

lemma stub_falling_always: "dlt (fst (probe (stub_collaborators d_zero d_inf u) t)) log_0_8"
proof -
  have "valof (dneg d_inf) < valof log_0_8"
    using d_inf_fields(3) by (simp add: valof_dneg valof_log_0_8)
  then show ?thesis
    by (simp add: stub_probe isnan_consts dsub_zero_inf dlt_def dneg_fields)
qed

lemma stub_rising_pass:
  "loop_passes 1 (stub_collaborators d_zero d_zero u) stub_point 1
       (snd (probe (stub_collaborators d_zero d_zero u) (stub_sampler d_1e7 j)))
     = Some (Inl (improper_posterior,
         (stub_sampler (dmul d_two d_1e7) j)\<lparr>z := \<lparr>q = [d_1e7], p = [d_two], bookkeeping = ()\<rparr>\<rparr>))"
proof -
  let ?C = "stub_collaborators d_zero d_zero u"
  let ?s1 = "snd (probe ?C (stub_sampler d_1e7 j))"
  have e: "nom_epsilon ?s1 = d_1e7" by (simp add: probe_frame stub_sampler_fields)
  have "loop_body ?C stub_point 1 ?s1 =
          Throw improper_posterior
            ((snd (probe ?C (restart stub_point ?s1)))\<lparr>nom_epsilon := dmul d_two (nom_epsilon ?s1)\<rparr>)"
    using rising_throw_or_continue [of ?C ?s1 stub_point, OF stub_rising_always]
    by (simp add: e valof_consts)
  then show ?thesis
    unfolding One_nat_def
    by (simp add: stub_probe restart_def ps_point_assign_def stub_point_def stub_sampler_def
         base_hmc_new_def)
qed

theorem scaling_and_fatal_errors_witness:
  "\<not> accepts 1 (fst (probe (stub_collaborators d_zero d_zero d_half)
                      (restart stub_point (stub_sampler d_1e7 d_zero))))
   \<and> loop_body (stub_collaborators d_zero d_zero d_half) stub_point 1 (stub_sampler d_1e7 d_zero)
       = Throw improper_posterior
           ((snd (probe (stub_collaborators d_zero d_zero d_half)
                    (restart stub_point (stub_sampler d_1e7 d_zero))))
              \<lparr>nom_epsilon := dmul d_two d_1e7\<rparr>)
   \<and> 0 < valof (nom_epsilon (stub_sampler d_1e7 d_zero))
   \<and> valof (nom_epsilon (stub_sampler d_1e7 d_zero)) \<le> 10000000
   \<and> pow2 (- 1021) \<le> valof (nom_epsilon (stub_sampler d_1e7 d_zero))
   \<and> valof (dmul d_two (nom_epsilon (stub_sampler d_1e7 d_zero))) = 20000000
   \<and> valof (dmul d_half (nom_epsilon (stub_sampler d_1e7 d_zero))) = 5000000
   \<and> (\<exists>s'. init_stepsize (stub_collaborators d_zero d_zero d_half) (stub_sampler d_1e7 d_zero)
              = Some (Inl (improper_posterior, s'))
            \<and> loop_passes 1 (stub_collaborators d_zero d_zero d_half) stub_point 1
                (snd (probe (stub_collaborators d_zero d_zero d_half) (stub_sampler d_1e7 d_zero)))
              = Some (Inl (improper_posterior, s')))
   \<and> (\<exists>s'. init_stepsize (stub_collaborators d_zero d_inf d_half) (stub_sampler d_1e7 d_zero)
              = Some (Inl (no_small_stepsize, s')))"
proof -
  let ?Cr = "stub_collaborators d_zero d_zero d_half"
  let ?Cf = "stub_collaborators d_zero d_inf d_half"
  let ?s = "stub_sampler d_1e7 d_zero"
  have e: "nom_epsilon ?s = d_1e7" by (simp add: stub_sampler_fields)
  have z0: "ps_point_copy (z ?s) = stub_point"
    by (simp add: stub_sampler_fields ps_point_copy_def stub_point_def)
  have h1: "0 < valof (nom_epsilon ?s)" and h2: "valof (nom_epsilon ?s) \<le> 10000000"
    and h3: "pow2 (- 1021) \<le> valof (nom_epsilon ?s)"
    by (simp_all add: e valof_consts pow2_def)
  have na: "\<not> accepts 1 (fst (probe ?Cr (restart stub_point ?s)))"
    using stub_rising_always [of d_half "restart stub_point ?s"] by (simp add: accepts_def)
  have r: "\<forall>t :: (unit, unit, nat, unit) sampler. dgt (fst (probe ?Cr t)) log_0_8"
    using stub_rising_always by blast
  have f: "\<forall>t :: (unit, unit, nat, unit) sampler. dlt (fst (probe ?Cf t)) log_0_8"
    using stub_falling_always by blast
  have l: "nat \<lfloor>log 2 (10000000 / valof (nom_epsilon ?s))\<rfloor> + 1 = 1"
    by (simp add: e valof_consts)
  note T1 = scaling_and_fatal_errors [of 1 ?Cr stub_point ?s, THEN conjunct1]
  note T2 = scaling_and_fatal_errors [of 1 ?Cr stub_point ?s, THEN conjunct2, THEN conjunct1]
  note T3 = scaling_and_fatal_errors [of 1 ?Cr stub_point ?s, THEN conjunct2, THEN conjunct2,
      THEN conjunct1]
  note T4 = scaling_and_fatal_errors [of 1 ?Cf stub_point ?s, THEN conjunct2, THEN conjunct2,
      THEN conjunct2]
  have w1: "loop_body ?Cr stub_point 1 ?s
       = Throw improper_posterior
           ((snd (probe ?Cr (restart stub_point ?s)))\<lparr>nom_epsilon := dmul d_two d_1e7\<rparr>)"
    using T1 na by (simp add: Let_def e dgt_two_1e7)
  have w2: "valof (dmul d_two (nom_epsilon ?s)) = 20000000"
    "valof (dmul d_half (nom_epsilon ?s)) = 5000000"
    using T2 h1 h2 h3 by (simp_all add: e valof_consts)
  have w3: "\<exists>s'. init_stepsize ?Cr ?s = Some (Inl (improper_posterior, s'))
            \<and> loop_passes 1 ?Cr stub_point 1 (snd (probe ?Cr ?s))
              = Some (Inl (improper_posterior, s'))"
    using T3 h1 h2 r unfolding l z0 by blast
  have w4: "\<exists>s'. init_stepsize ?Cf ?s = Some (Inl (no_small_stepsize, s'))"
    using T4 h1 h2 f by blast
  from na w1 h1 h2 h3 w2 w3 w4 show ?thesis by blast
qed

text \<open>
  The bound of the claim as stated is one short when \<open>1e7 / eps0\<close> is a power of two.
  From \<open>eps0 = 1e7\<close>, with every probe above \<open>ln 0.8\<close>, the bound
  \<open>ceiling (log2 (1e7 / eps0))\<close> is 0, no pass has thrown after 0 passes, and the error
  comes with the first scaling.
\<close>

theorem improper_posterior_after_first_scaling:
  "nat \<lceil>log 2 (10000000 / valof (nom_epsilon (stub_sampler d_1e7 d_zero)))\<rceil> = 0
   \<and> loop_passes (nat \<lceil>log 2 (10000000 / valof (nom_epsilon (stub_sampler d_1e7 d_zero)))\<rceil>)
         (stub_collaborators d_zero d_zero d_half) stub_point 1
         (snd (probe (stub_collaborators d_zero d_zero d_half) (stub_sampler d_1e7 d_zero)))
       = None
   \<and> loop_passes 1 (stub_collaborators d_zero d_zero d_half) stub_point 1
         (snd (probe (stub_collaborators d_zero d_zero d_half) (stub_sampler d_1e7 d_zero)))
       = Some (Inl (improper_posterior,
           (stub_sampler (dmul d_two d_1e7) d_zero)
             \<lparr>z := \<lparr>q = [d_1e7], p = [d_two], bookkeeping = ()\<rparr>\<rparr>))"
proof -
  have "nat \<lceil>log 2 (10000000 / valof (nom_epsilon (stub_sampler d_1e7 d_zero)))\<rceil> = 0"
    by (simp add: stub_sampler_fields valof_consts)
  then show ?thesis using stub_rising_pass [of d_half d_zero] by simp
qed

section \<open>Arithmetic on doubles: exact results and monotonicity\<close>

lemma valof_pack_zero: "valof (pack s 0) = 0"
proof -
  have z: "0 < (2 ^ 63 :: nat)" by simp
  have "valof (pack False 0) = 0"
    using valof_pack_unsigned(2) [OF z] by simp
  with valof_pack_unsigned(1) [OF z, of s] show ?thesis by simp
qed

lemma rounded_zero: "rounded 0 E = 0"
  by (simp add: rounded_def round_to_double_def valof_pack_zero)

lemma rounded_pos: "0 < S \<Longrightarrow> rounded S E = valof (round_to_double False (nat S) E)"
  by (simp add: rounded_def)

lemma rounded_neg: "S < 0 \<Longrightarrow> rounded S E = - valof (round_to_double False (nat (- S)) E)"
  using round_to_double_sign [of True "nat (- S)" E] by (simp add: rounded_def)

lemma rounded_sign: "0 \<le> S \<Longrightarrow> 0 \<le> rounded S E" "S \<le> 0 \<Longrightarrow> rounded S E \<le> 0"
proof -
  show "0 \<le> rounded S E" if "0 \<le> S"
    using that round_to_double_nonneg [of "nat S" E]
    by (cases "S = 0") (simp_all add: rounded_zero rounded_pos)
  show "rounded S E \<le> 0" if "S \<le> 0"
    using that round_to_double_nonneg [of "nat (- S)" E]
    by (cases "S = 0") (simp_all add: rounded_zero rounded_neg)
qed

lemma rounded_mono:
  assumes "real_of_int S1 * pow2 E1 \<le> real_of_int S2 * pow2 E2"
  shows "rounded S1 E1 \<le> rounded S2 E2"
proof -
  have sgn: "0 < real_of_int S * pow2 E \<longleftrightarrow> 0 < S" "real_of_int S * pow2 E < 0 \<longleftrightarrow> S < 0"
    for S E
    by (simp_all add: zero_less_mult_iff mult_less_0_iff)
  consider (pos) "0 < S1" | (zero) "S1 = 0" | (neg) "S1 < 0" by linarith
  then show ?thesis
  proof cases
    case pos
    then have "0 < real_of_int S1 * pow2 E1" by (simp add: sgn)
    with assms have "0 < real_of_int S2 * pow2 E2" by linarith
    then have pos2: "0 < S2" by (simp add: sgn)
    have "real (nat S1) * pow2 E1 \<le> real (nat S2) * pow2 E2"
      using assms pos pos2 by simp
    from round_to_double_mono [OF _ _ this] pos pos2 show ?thesis
      by (simp add: rounded_pos)
  next
    case zero
    with assms have "\<not> real_of_int S2 * pow2 E2 < 0" by simp
    then have "0 \<le> S2" by (simp add: sgn)
    with zero show ?thesis by (simp add: rounded_zero rounded_sign)
  next
    case neg
    show ?thesis
    proof (cases "S2 < 0")
      case True
      have "real (nat (- S2)) * pow2 E2 \<le> real (nat (- S1)) * pow2 E1"
        using assms neg True by simp
      from round_to_double_mono [OF _ _ this] neg True show ?thesis
        by (simp add: rounded_neg)
    next
      case False
      then have "0 \<le> rounded S2 E2" by (simp add: rounded_sign)
      moreover have "rounded S1 E1 \<le> 0" using neg by (simp add: rounded_sign)
      ultimately show ?thesis by linarith
    qed
  qed
qed

lemma valof_smant: "valof w = real_of_int (smant w) * pow2 (expo w)"
  by (simp add: valof_def smant_def)

lemma rounded_round:
  "rounded ((if s then - 1 else 1) * int M) E = valof (round_to_double s M E)"
proof (cases "M = 0")
  case True
  then show ?thesis by (simp add: rounded_zero round_to_double_def valof_pack_zero)
next
  case False
  then show ?thesis
    using round_to_double_sign [of s M E]
    by (cases s) (simp_all add: rounded_neg rounded_pos)
qed

lemma smant_mult:
  "smant a * smant b = (if sign_bit a \<noteq> sign_bit b then - 1 else 1) * int (mant a * mant b)"
  by (simp add: smant_def)

lemma dmul_rounded:
  assumes "\<not> isnan a" "\<not> is_inf a" "\<not> isnan b" "\<not> is_inf b"
  shows "valof (dmul a b) = rounded (smant a * smant b) (expo a + expo b)"
  using assms unfolding smant_mult rounded_round by (simp add: dmul_def)

lemma signed_mant_smant: "signed_mant w E = smant w * 2 ^ nat (expo w - E)"
  by (simp add: signed_mant_def smant_def)

lemma signed_mant_value:
  assumes "E \<le> expo w"
  shows "real_of_int (signed_mant w E) * pow2 E = valof w"
proof -
  have "pow2 (expo w) = pow2 (int (nat (expo w - E)) + E)" using assms by simp
  also have "\<dots> = 2 ^ nat (expo w - E) * pow2 E" by (simp only: pow2_add pow2_nat)
  finally show ?thesis by (simp add: signed_mant_smant valof_smant)
qed

lemma dadd_rounded:
  assumes "\<not> isnan a" "\<not> is_inf a" "\<not> isnan b" "\<not> is_inf b"
  shows "valof (dadd a b) =
           rounded (signed_mant a (min (expo a) (expo b)) + signed_mant b (min (expo a) (expo b)))
             (min (expo a) (expo b))"
  using assms by (simp add: dadd_def Let_def rounded_zero valof_pack_zero) (simp add: rounded_def)

lemma dadd_exact_value:
  "real_of_int (signed_mant a (min (expo a) (expo b)) + signed_mant b (min (expo a) (expo b)))
     * pow2 (min (expo a) (expo b)) = valof a + valof b"
  using signed_mant_value [of "min (expo a) (expo b)" a]
    signed_mant_value [of "min (expo a) (expo b)" b]
  by (simp add: algebra_simps)

lemma dmul_exact_value:
  "real_of_int (smant a * smant b) * pow2 (expo a + expo b) = valof a * valof b"
  by (simp add: valof_smant pow2_add)

lemma dmul_mono:
  assumes "is_finite a" "is_finite b" "is_finite c" "is_finite d"
    and "valof a * valof b \<le> valof c * valof d"
  shows "valof (dmul a b) \<le> valof (dmul c d)"
proof -
  have "rounded (smant a * smant b) (expo a + expo b)
        \<le> rounded (smant c * smant d) (expo c + expo d)"
    by (rule rounded_mono) (simp only: dmul_exact_value assms(5))
  then show ?thesis
    using assms(1-4) by (simp add: dmul_rounded finite_not_nan)
qed

lemma dadd_mono:
  assumes "is_finite a" "is_finite b" "is_finite c" "is_finite d"
    and "valof a + valof b \<le> valof c + valof d"
  shows "valof (dadd a b) \<le> valof (dadd c d)"
proof -
  have "rounded (signed_mant a (min (expo a) (expo b)) + signed_mant b (min (expo a) (expo b)))
             (min (expo a) (expo b))
        \<le> rounded (signed_mant c (min (expo c) (expo d)) + signed_mant d (min (expo c) (expo d)))
             (min (expo c) (expo d))"
    by (rule rounded_mono) (simp only: dadd_exact_value assms(5))
  then show ?thesis
    using assms(1-4) by (simp add: dadd_rounded finite_not_nan)
qed

lemma canonical_round:
  assumes "is_finite w" and "0 < mant w"
  shows "valof (round_to_double False (mant w) (expo w)) = real (mant w) * pow2 (expo w)"
proof -
  have B: "biased_exp w < 2047" using assms(1) by (simp add: is_finite_def)
  have q: "quantum_exp (mant w) (expo w) = expo w"
  proof (cases "biased_exp w = 0")
    case True
    from mant_subnormal [OF True] have "floorlog 2 (mant w) \<le> 52" and "expo w = - 1074"
      by (simp_all add: floorlog2_le)
    then show ?thesis by (simp add: quantum_exp_def)
  next
    case False
    have "floorlog 2 (mant w) = 53"
      by (rule floorlog2_normal [OF mant_normal [OF False] mant_less])
    with expo_ge [of w] show ?thesis by (simp add: quantum_exp_def)
  qed
  have m: "significand (mant w) (expo w) = mant w"
    by (simp add: significand_def q)
  have bits: "nat (quantum_exp (mant w) (expo w) + 1074) * 2 ^ 52 + significand (mant w) (expo w)
              < 2047 * 2 ^ 52"
  proof (cases "biased_exp w = 0")
    case True
    with mant_subnormal [OF True] show ?thesis unfolding q m by simp
  next
    case False
    have "nat (expo w + 1074) = biased_exp w - 1" using False by (simp add: expo_def)
    moreover have "(biased_exp w - 1) * 2 ^ 52 \<le> 2045 * 2 ^ 52" using B by simp
    ultimately show ?thesis unfolding q m using mant_less [of w] by simp
  qed
  from round_to_double_finite(2,3) [OF assms(2) bits, of False] show ?thesis
    by (simp add: valof_unsigned q m)
qed

lemma rounded_canonical:
  assumes "is_finite w"
  shows "rounded (smant w) (expo w) = valof w"
proof (cases "mant w = 0")
  case True
  then show ?thesis by (simp add: smant_def rounded_zero valof_def)
next
  case False
  then have pos: "0 < mant w" by simp
  have "rounded (smant w) (expo w) = valof (round_to_double (sign_bit w) (mant w) (expo w))"
    unfolding smant_def by (rule rounded_round)
  also have "\<dots> = (if sign_bit w then - 1 else 1) * (real (mant w) * pow2 (expo w))"
    unfolding round_to_double_sign [of "sign_bit w"] canonical_round [OF assms pos] ..
  finally show ?thesis by (simp add: valof_def)
qed

lemma rounded_exact:
  assumes "is_finite w" and "real_of_int S * pow2 E = valof w"
  shows "rounded S E = valof w"
proof -
  have e: "real_of_int S * pow2 E = real_of_int (smant w) * pow2 (expo w)"
    using assms(2) by (simp only: valof_smant)
  have "rounded S E \<le> rounded (smant w) (expo w)"
    by (rule rounded_mono) (simp only: e order_refl)
  moreover have "rounded (smant w) (expo w) \<le> rounded S E"
    by (rule rounded_mono) (simp only: e order_refl)
  ultimately show ?thesis by (simp add: rounded_canonical [OF assms(1)])
qed

lemma dmul_exact:
  assumes "is_finite a" "is_finite b" "is_finite w" and "valof a * valof b = valof w"
  shows "valof (dmul a b) = valof w"
proof -
  have "rounded (smant a * smant b) (expo a + expo b) = valof w"
    by (rule rounded_exact [OF assms(3)]) (simp only: dmul_exact_value assms(4))
  then show ?thesis using assms(1,2) by (simp add: dmul_rounded finite_not_nan)
qed

lemma dadd_exact:
  assumes "is_finite a" "is_finite b" "is_finite w" and "valof a + valof b = valof w"
  shows "valof (dadd a b) = valof w"
proof -
  have "rounded (signed_mant a (min (expo a) (expo b)) + signed_mant b (min (expo a) (expo b)))
             (min (expo a) (expo b)) = valof w"
    by (rule rounded_exact [OF assms(3)]) (simp only: dadd_exact_value assms(4))
  then show ?thesis using assms(1,2) by (simp add: dadd_rounded finite_not_nan)
qed

lemma finite_of_bound:
  assumes "\<not> isnan w" and "\<bar>valof w\<bar> < pow2 1024"
  shows "is_finite w"
proof (rule ccontr)
  assume "\<not> is_finite w"
  then have B: "biased_exp w = 2047"
    using biased_exp_less [of w] by (simp add: is_finite_def)
  then have "expo w = 972" by (simp add: expo_def)
  moreover have "(2::real) ^ 52 \<le> real (mant w)"
  proof -
    have "2 ^ 52 \<le> mant w" using B by (intro mant_normal) simp
    then have "real (2 ^ 52) \<le> real (mant w)" by (simp only: of_nat_le_iff)
    then show ?thesis by simp
  qed
  ultimately have "2 ^ 52 * pow2 972 \<le> real (mant w) * pow2 (expo w)"
    by (intro mult_mono) simp_all
  moreover have "(2::real) ^ 52 * pow2 972 = pow2 1024"
    using pow2_add [of 52 972] by (simp add: pow2_nat [of 52, simplified])
  moreover have "\<bar>valof w\<bar> = real (mant w) * pow2 (expo w)"
    by (simp add: valof_def abs_mult)
  ultimately show False using assms(2) by simp
qed

lemma not_nan_dmul: "is_finite a \<Longrightarrow> is_finite b \<Longrightarrow> \<not> isnan (dmul a b)"
  by (simp add: dmul_def finite_not_nan not_nan_round)

lemma rounded_ge:
  assumes "is_finite lo" and "valof lo \<le> real_of_int S * pow2 E"
  shows "valof lo \<le> rounded S E"
proof -
  have "rounded (smant lo) (expo lo) \<le> rounded S E"
    by (rule rounded_mono) (simp only: valof_smant [symmetric] assms(2))
  then show ?thesis by (simp only: rounded_canonical [OF assms(1)])
qed

lemma rounded_le:
  assumes "is_finite hi" and "real_of_int S * pow2 E \<le> valof hi"
  shows "rounded S E \<le> valof hi"
proof -
  have "rounded S E \<le> rounded (smant hi) (expo hi)"
    by (rule rounded_mono) (simp only: valof_smant [symmetric] assms(2))
  then show ?thesis by (simp only: rounded_canonical [OF assms(1)])
qed

lemma dmul_between:
  assumes "is_finite a" "is_finite b" "is_finite lo" "is_finite hi"
    and "valof lo \<le> valof a * valof b" and "valof a * valof b \<le> valof hi"
    and "\<bar>valof lo\<bar> < pow2 1024" and "\<bar>valof hi\<bar> < pow2 1024"
  shows "valof lo \<le> valof (dmul a b)" and "valof (dmul a b) \<le> valof hi"
    and "is_finite (dmul a b)"
proof -
  have v: "valof (dmul a b) = rounded (smant a * smant b) (expo a + expo b)"
    using assms(1,2) by (simp add: dmul_rounded finite_not_nan)
  show lo: "valof lo \<le> valof (dmul a b)"
    unfolding v by (rule rounded_ge [OF assms(3)]) (simp only: dmul_exact_value assms(5))
  show hi: "valof (dmul a b) \<le> valof hi"
    unfolding v by (rule rounded_le [OF assms(4)]) (simp only: dmul_exact_value assms(6))
  from lo hi assms(7,8) have "\<bar>valof (dmul a b)\<bar> < pow2 1024" by linarith
  with not_nan_dmul [OF assms(1,2)] show "is_finite (dmul a b)" by (intro finite_of_bound)
qed

lemma not_nan_dadd_finite: "is_finite a \<Longrightarrow> is_finite b \<Longrightarrow> \<not> isnan (dadd a b)"
  by (simp add: not_nan_dadd finite_not_nan)

lemma dadd_between:
  assumes "is_finite a" "is_finite b" "is_finite lo" "is_finite hi"
    and "valof lo \<le> valof a + valof b" and "valof a + valof b \<le> valof hi"
    and "\<bar>valof lo\<bar> < pow2 1024" and "\<bar>valof hi\<bar> < pow2 1024"
  shows "valof lo \<le> valof (dadd a b)" and "valof (dadd a b) \<le> valof hi"
    and "is_finite (dadd a b)"
proof -
  let ?E = "min (expo a) (expo b)"
  have v: "valof (dadd a b) = rounded (signed_mant a ?E + signed_mant b ?E) ?E"
    using assms(1,2) by (simp add: dadd_rounded finite_not_nan)
  show lo: "valof lo \<le> valof (dadd a b)"
    unfolding v by (rule rounded_ge [OF assms(3)]) (simp only: dadd_exact_value assms(5))
  show hi: "valof (dadd a b) \<le> valof hi"
    unfolding v by (rule rounded_le [OF assms(4)]) (simp only: dadd_exact_value assms(6))
  from lo hi assms(7,8) have "\<bar>valof (dadd a b)\<bar> < pow2 1024" by linarith
  with not_nan_dadd_finite [OF assms(1,2)] show "is_finite (dadd a b)" by (intro finite_of_bound)
qed

lemma pow2_1024_big: "(2::real) < pow2 1024"
  using pow2_strict_mono [of 1 1024] by (simp add: pow2_def)

lemma finite_consts:
  "is_finite d_zero" "is_finite d_one" "is_finite d_two" "is_finite (dneg d_one)"
  by (simp_all add: is_finite_def biased_exp_dneg) (simp_all add: biased_exp_def d_zero_def
      d_one_def d_two_def)

lemma is_finite_dneg: "is_finite (dneg w) = is_finite w"
  by (simp add: is_finite_def biased_exp_dneg)

text \<open>The factor \<open>1 + j * (2 * u - 1)\<close> as \<^verbatim>\<open>sample_stepsize\<close> computes it.\<close>

lemma jitter_factor:
  assumes u: "\<not> isnan u" "0 \<le> valof u" "valof u \<le> 1"
    and j: "\<not> isnan j" "0 \<le> valof j" "valof j < 1"
  defines "t \<equiv> dadd d_one (dmul j (dsub (dmul d_two u) d_one))"
  shows "is_finite t"
    and "valof (dsub d_one j) \<le> valof t" and "valof t \<le> valof (dadd d_one j)"
    and "is_finite (dsub d_one j)" and "is_finite (dadd d_one j)"
proof -
  note big = pow2_1024_big
  have fu: "is_finite u" using u big by (intro finite_of_bound) simp_all
  have fj: "is_finite j" using j big by (intro finite_of_bound) simp_all
  have fnj: "is_finite (dneg j)" using fj by (simp add: is_finite_dneg)
  note t1 = dmul_between [OF finite_consts(3) fu finite_consts(1) finite_consts(3), simplified valof_consts]
  have t1f: "is_finite (dmul d_two u)" and t1lo: "0 \<le> valof (dmul d_two u)"
    and t1hi: "valof (dmul d_two u) \<le> 2"
    using t1 u big by simp_all
  have t2: "is_finite (dsub (dmul d_two u) d_one)"
    "- 1 \<le> valof (dsub (dmul d_two u) d_one)" "valof (dsub (dmul d_two u) d_one) \<le> 1"
    unfolding dsub_def
    using dadd_between [OF t1f finite_consts(4) finite_consts(4) finite_consts(2)] t1lo t1hi big
    by (simp_all add: valof_dneg valof_consts)
  let ?t2 = "dsub (dmul d_two u) d_one"
  have lo3: "valof (dneg j) \<le> valof j * valof ?t2"
  proof -
    have "valof j * (- 1) \<le> valof j * valof ?t2" using t2(2) j(2) by (intro mult_left_mono)
    then show ?thesis by (simp add: valof_dneg)
  qed
  have hi3: "valof j * valof ?t2 \<le> valof j"
  proof -
    have "valof j * valof ?t2 \<le> valof j * 1" using t2(3) j(2) by (intro mult_left_mono)
    then show ?thesis by simp
  qed
  have t3: "is_finite (dmul j ?t2)" "- valof j \<le> valof (dmul j ?t2)" "valof (dmul j ?t2) \<le> valof j"
    using dmul_between [OF fj t2(1) fnj fj lo3 hi3] j big by (simp_all add: valof_dneg)
  let ?t3 = "dmul j ?t2"
  show "is_finite (dsub d_one j)"
    unfolding dsub_def
    using dadd_between(3) [OF finite_consts(2) fnj finite_consts(1) finite_consts(3)] j big
    by (simp add: valof_dneg valof_consts)
  show "is_finite (dadd d_one j)"
    using dadd_between(3) [OF finite_consts(2) fj finite_consts(1) finite_consts(3)] j big
    by (simp add: valof_consts)
  show "is_finite t"
    unfolding t_def
    using dadd_between(3) [OF finite_consts(2) t3(1) finite_consts(1) finite_consts(3)] t3(2,3) j big
    by (simp add: valof_consts)
  show "valof (dsub d_one j) \<le> valof t"
    unfolding t_def dsub_def [of d_one j]
    using t3(2) by (intro dadd_mono finite_consts fnj t3(1)) (simp add: valof_dneg)
  show "valof t \<le> valof (dadd d_one j)"
    unfolding t_def
    using t3(3) by (intro dadd_mono finite_consts fj t3(1)) simp
qed

lemma below_one:
  assumes "0 \<le> valof j" and "valof j < 1"
  shows "valof j \<le> 1 - pow2 (- 53)"
proof (cases "sign_bit j")
  case True
  then have "valof j \<le> 0" by (simp add: valof_def)
  moreover have "pow2 (- 53) \<le> 1" using pow2_mono [of "- 53" 0] by (simp add: pow2_def)
  ultimately show ?thesis by linarith
next
  case False
  then have v: "valof j = real (mant j) * pow2 (expo j)" by (rule valof_unsigned)
  have B: "biased_exp j \<le> 1022"
  proof (rule ccontr)
    assume "\<not> biased_exp j \<le> 1022"
    then have big: "1023 \<le> biased_exp j" by simp
    then have "- 52 \<le> expo j" by (simp add: expo_def)
    then have "pow2 (- 52) \<le> pow2 (expo j)" by (rule pow2_mono)
    moreover have "(2::real) ^ 52 \<le> real (mant j)"
    proof -
      have "2 ^ 52 \<le> mant j" using big by (intro mant_normal) simp
      then have "real (2 ^ 52) \<le> real (mant j)" by (simp only: of_nat_le_iff)
      then show ?thesis by simp
    qed
    ultimately have "2 ^ 52 * pow2 (- 52) \<le> real (mant j) * pow2 (expo j)"
      by (intro mult_mono) simp_all
    moreover have "(2::real) ^ 52 * pow2 (- 52) = 1" by (simp add: pow2_def)
    ultimately show False using assms(2) v by simp
  qed
  then have "expo j \<le> - 53" by (simp add: expo_def)
  then have e: "pow2 (expo j) \<le> pow2 (- 53)" by (rule pow2_mono)
  have "mant j \<le> 2 ^ 53 - 1" using mant_less [of j] by simp
  then have "real (mant j) \<le> real (2 ^ 53 - 1)" by (simp only: of_nat_le_iff)
  then have m: "real (mant j) \<le> 2 ^ 53 - 1" by simp
  have "real (mant j) * pow2 (expo j) \<le> (2 ^ 53 - 1) * pow2 (- 53)"
    using m e by (intro mult_mono) simp_all
  also have "\<dots> = 1 - pow2 (- 53)" by (simp add: pow2_def algebra_simps)
  finally show ?thesis by (simp only: v)
qed

lemma d_inf_pack: "pack False inf_bits = d_inf"
  by (simp add: pack_def inf_bits_def d_inf_def)

lemma dmul_inf:
  assumes "is_inf a" and "0 \<le> valof a" and "is_finite x" and "0 < valof x"
  shows "dmul a x = d_inf"
proof -
  have na: "\<not> isnan a" using assms(1) by (simp add: is_inf_def isnan_def)
  have "0 < mant a" using assms(1) by (simp add: is_inf_def mant_def)
  then have "0 < real (mant a) * pow2 (expo a)" by simp
  then have sa: "\<not> sign_bit a"
    using assms(2) by (cases "sign_bit a") (simp_all add: valof_def)
  have sx: "\<not> sign_bit x" and mx: "0 < mant x" using assms(4) by (simp_all add: valof_pos_iff)
  then have zx: "\<not> is_zero x" by (simp add: is_zero_mant)
  show ?thesis
    using assms(1) na sa sx zx finite_not_nan [OF assms(3)]
    by (simp add: dmul_def d_inf_pack)
qed

lemma finite_of_not_inf: "\<not> isnan w \<Longrightarrow> \<not> is_inf w \<Longrightarrow> is_finite w"
  using biased_exp_less [of w]
  by (cases "biased_exp w = 2047") (auto simp: is_finite_def isnan_def is_inf_def)

lemma dle_refl: "\<not> isnan a \<Longrightarrow> dle a a"
  by (simp add: dle_def)

lemma d_2m53_fields: "is_finite d_2m53" "valof d_2m53 = pow2 (- 53)"
  by (simp_all add: is_finite_def valof_def field_defs d_2m53_def)

lemma jitter_bounds:
  assumes n: "\<not> isnan nom" "0 \<le> valof nom"
    and u: "\<not> isnan u" "0 \<le> valof u" "valof u \<le> 1"
    and j: "\<not> isnan j" "0 \<le> valof j" "valof j < 1"
  defines "t \<equiv> dadd d_one (dmul j (dsub (dmul d_two u) d_one))"
  shows "dle (dmul nom (dsub d_one j)) (dmul nom t)"
    and "dle (dmul nom t) (dmul nom (dadd d_one j))"
proof -
  note f = jitter_factor [OF u j, folded t_def]
  have fj: "is_finite j" using j pow2_1024_big by (intro finite_of_bound) simp_all
  have fnj: "is_finite (dneg j)" using fj by (simp add: is_finite_dneg)
  have "valof d_2m53 \<le> valof d_one + valof (dneg j)"
    using below_one [OF j(2,3)] by (simp add: d_2m53_fields valof_consts valof_dneg)
  moreover have "valof d_one + valof (dneg j) \<le> valof d_two"
    using j(2) by (simp add: valof_consts valof_dneg)
  moreover have "\<bar>valof d_2m53\<bar> < pow2 1024"
    using pow2_strict_mono [of "- 53" 1024] by (simp add: d_2m53_fields)
  ultimately have "valof d_2m53 \<le> valof (dsub d_one j)"
    unfolding dsub_def
    using pow2_1024_big
    by (intro dadd_between(1) [OF finite_consts(2) fnj d_2m53_fields(1) finite_consts(3)])
       (simp_all add: valof_consts)
  then have lo_pos: "0 < valof (dsub d_one j)"
    using pow2_pos [of "- 53"] unfolding d_2m53_fields by linarith
  with f(2,3) have t_pos: "0 < valof t" and hi_pos: "0 < valof (dadd d_one j)" by linarith+
  show "dle (dmul nom (dsub d_one j)) (dmul nom t)"
  proof (cases "is_inf nom")
    case True
    from dmul_inf [OF True n(2) f(4) lo_pos] dmul_inf [OF True n(2) f(1) t_pos]
    show ?thesis by (simp add: dle_refl isnan_consts)
  next
    case False
    with n(1) have fn: "is_finite nom" by (rule finite_of_not_inf)
    have "valof nom * valof (dsub d_one j) \<le> valof nom * valof t"
      using f(2) n(2) by (intro mult_left_mono)
    from dmul_mono [OF fn f(4) fn f(1) this] not_nan_dmul [OF fn f(4)] not_nan_dmul [OF fn f(1)]
    show ?thesis by (simp add: dle_def)
  qed
  show "dle (dmul nom t) (dmul nom (dadd d_one j))"
  proof (cases "is_inf nom")
    case True
    from dmul_inf [OF True n(2) f(5) hi_pos] dmul_inf [OF True n(2) f(1) t_pos]
    show ?thesis by (simp add: dle_refl isnan_consts)
  next
    case False
    with n(1) have fn: "is_finite nom" by (rule finite_of_not_inf)
    have "valof nom * valof t \<le> valof nom * valof (dadd d_one j)"
      using f(3) n(2) by (intro mult_left_mono)
    from dmul_mono [OF fn f(1) fn f(5) this] not_nan_dmul [OF fn f(5)] not_nan_dmul [OF fn f(1)]
    show ?thesis by (simp add: dle_def)
  qed
qed

section \<open>The step-size jitter\<close>

lemma valof_inf_pos:
  assumes "is_inf a" and "0 \<le> valof a"
  shows "valof a = valof d_inf"
proof -
  have "0 < mant a" using assms(1) by (simp add: is_inf_def mant_def)
  then have "0 < real (mant a) * pow2 (expo a)" by simp
  then have sa: "\<not> sign_bit a"
    using assms(2) by (cases "sign_bit a") (simp_all add: valof_def)
  have si: "\<not> sign_bit d_inf" by (simp add: sign_bit_def d_inf_def)
  have "mant a = mant d_inf" and "expo a = expo d_inf"
    using assms(1) d_inf_fields(1) by (simp_all add: is_inf_def mant_def expo_def)
  then show ?thesis by (simp only: valof_unsigned [OF sa] valof_unsigned [OF si])
qed

text \<open>With a jitter of value zero both ends of the interval are the nominal step size.\<close>

lemma no_jitter_bounds:
  assumes n: "\<not> isnan nom" "0 \<le> valof nom" and j: "\<not> isnan j" "valof j = 0"
  shows "dle (dmul nom (dsub d_one j)) nom" and "dle nom (dmul nom (dadd d_one j))"
proof -
  have j': "0 \<le> valof j" "valof j < 1" using j(2) by simp_all
  have u1: "\<not> isnan d_one" "0 \<le> valof d_one" "valof d_one \<le> 1"
    by (simp_all add: isnan_consts valof_consts)
  note f = jitter_factor [OF u1 j(1) j']
  have fj: "is_finite j" using j pow2_1024_big by (intro finite_of_bound) simp_all
  then have fnj: "is_finite (dneg j)" by (simp add: is_finite_dneg)
  have lo: "valof (dsub d_one j) = 1"
    unfolding dsub_def using dadd_exact [OF finite_consts(2) fnj finite_consts(2)]
    by (simp add: valof_consts valof_dneg j(2))
  have hi: "valof (dadd d_one j) = 1"
    using dadd_exact [OF finite_consts(2) fj finite_consts(2)]
    by (simp add: valof_consts j(2))
  have key: "\<not> isnan (dmul nom x) \<and> valof (dmul nom x) = valof nom"
    if x: "is_finite x" "valof x = 1" for x
  proof (cases "is_inf nom")
    case True
    have "dmul nom x = d_inf" using dmul_inf [OF True n(2) x(1)] x(2) by simp
    then show ?thesis using valof_inf_pos [OF True n(2)] by (simp add: isnan_consts)
  next
    case False
    with n(1) have fn: "is_finite nom" by (rule finite_of_not_inf)
    from dmul_exact [OF fn x(1) fn] x(2) not_nan_dmul [OF fn x(1)] show ?thesis by simp
  qed
  from key [OF f(4) lo] n(1) show "dle (dmul nom (dsub d_one j)) nom"
    by (simp add: dle_def)
  from key [OF f(5) hi] n(1) show "dle nom (dmul nom (dadd d_one j))"
    by (simp add: dle_def)
qed

lemma sample_stepsize_eq:
  "sample_stepsize C s =
     (if deq (epsilon_jitter s) d_zero then s\<lparr>epsilon := nom_epsilon s\<rparr>
      else s\<lparr>epsilon :=
               dmul (nom_epsilon s)
                 (dadd d_one
                    (dmul (epsilon_jitter s)
                       (dsub (dmul d_two (fst (rand_uniform C (env s)))) d_one))),
             env := snd (rand_uniform C (env s))\<rparr>)"
  by (simp add: sample_stepsize_def Let_def split_beta)

lemma stub_rand_uniform: "rand_uniform (stub_collaborators h0 h1 u) n = (u, Suc n)"
  by (simp add: stub_collaborators_def)

text \<open>
  C6. \<^verbatim>\<open>sample_stepsize\<close> leaves the nominal step size, the jitter and the point as they
  are. When the stored jitter compares equal to zero the current step size becomes the
  nominal one and nothing else changes: no number is drawn. Otherwise the generator is
  called once, for \<open>u\<close>, and the current step size becomes the nominal one times
  \<open>1 + j * (2 * u - 1)\<close>, each operation being the one on doubles. For a nominal step
  size that is not negative, a jitter \<open>j\<close> with \<open>0 \<le> j < 1\<close> and a draw \<open>u\<close> with
  \<open>0 \<le> u \<le> 1\<close>, the current step size lies between \<open>nominal * (1 - j)\<close> and
  \<open>nominal * (1 + j)\<close>, the two ends being computed on doubles as well.
\<close>

theorem sample_stepsize_spec:
  fixes s :: "('pt, 'env, 'd) base_hmc_scheme"
  shows
  "nom_epsilon (sample_stepsize C s) = nom_epsilon s \<and>
   epsilon_jitter (sample_stepsize C s) = epsilon_jitter s \<and>
   z (sample_stepsize C s) = z s \<and>
   (deq (epsilon_jitter s) d_zero \<longrightarrow>
      sample_stepsize C s = s\<lparr>epsilon := nom_epsilon s\<rparr>) \<and>
   (\<not> deq (epsilon_jitter s) d_zero \<longrightarrow>
      sample_stepsize C s =
        s\<lparr>epsilon :=
            dmul (nom_epsilon s)
              (dadd d_one
                 (dmul (epsilon_jitter s)
                    (dsub (dmul d_two (fst (rand_uniform C (env s)))) d_one))),
          env := snd (rand_uniform C (env s))\<rparr>) \<and>
   (\<not> isnan (nom_epsilon s) \<and> 0 \<le> valof (nom_epsilon s) \<and>
    \<not> isnan (epsilon_jitter s) \<and> 0 \<le> valof (epsilon_jitter s) \<and>
    valof (epsilon_jitter s) < 1 \<and>
    (deq (epsilon_jitter s) d_zero \<or>
     \<not> isnan (fst (rand_uniform C (env s))) \<and> 0 \<le> valof (fst (rand_uniform C (env s))) \<and>
     valof (fst (rand_uniform C (env s))) \<le> 1) \<longrightarrow>
      dle (dmul (nom_epsilon s) (dsub d_one (epsilon_jitter s)))
        (epsilon (sample_stepsize C s)) \<and>
      dle (epsilon (sample_stepsize C s))
        (dmul (nom_epsilon s) (dadd d_one (epsilon_jitter s))))"
proof (cases "deq (epsilon_jitter s) d_zero")
  case True
  then have j: "\<not> isnan (epsilon_jitter s)" "valof (epsilon_jitter s) = 0"
    by (simp_all add: deq_zero_iff)
  have "dle (dmul (nom_epsilon s) (dsub d_one (epsilon_jitter s))) (nom_epsilon s) \<and>
        dle (nom_epsilon s) (dmul (nom_epsilon s) (dadd d_one (epsilon_jitter s)))"
    if "\<not> isnan (nom_epsilon s)" "0 \<le> valof (nom_epsilon s)"
    using no_jitter_bounds [OF that j] by simp
  with True show ?thesis by (simp add: sample_stepsize_eq)
next
  case False
  have "dle (dmul (nom_epsilon s) (dsub d_one (epsilon_jitter s)))
          (dmul (nom_epsilon s)
             (dadd d_one
                (dmul (epsilon_jitter s)
                   (dsub (dmul d_two (fst (rand_uniform C (env s)))) d_one)))) \<and>
        dle (dmul (nom_epsilon s)
               (dadd d_one
                  (dmul (epsilon_jitter s)
                     (dsub (dmul d_two (fst (rand_uniform C (env s)))) d_one))))
          (dmul (nom_epsilon s) (dadd d_one (epsilon_jitter s)))"
    if "\<not> isnan (nom_epsilon s)" "0 \<le> valof (nom_epsilon s)"
      "\<not> isnan (epsilon_jitter s)" "0 \<le> valof (epsilon_jitter s)"
      "valof (epsilon_jitter s) < 1"
      "\<not> isnan (fst (rand_uniform C (env s)))" "0 \<le> valof (fst (rand_uniform C (env s)))"
      "valof (fst (rand_uniform C (env s))) \<le> 1"
    using jitter_bounds [OF that(1,2,6,7,8,3,4,5)] by simp
  with False show ?thesis by (simp add: sample_stepsize_eq)
qed

theorem sample_stepsize_spec_witness:
  "deq (epsilon_jitter (stub_sampler d_0_1 d_zero)) d_zero
   \<and> sample_stepsize (stub_collaborators d_zero d_zero d_half) (stub_sampler d_0_1 d_zero)
       = (stub_sampler d_0_1 d_zero)\<lparr>epsilon := d_0_1\<rparr>
   \<and> \<not> deq (epsilon_jitter (stub_sampler d_0_1 d_half)) d_zero
   \<and> env (sample_stepsize (stub_collaborators d_zero d_zero d_half)
            (stub_sampler d_0_1 d_half)) = 1
   \<and> nom_epsilon (sample_stepsize (stub_collaborators d_zero d_zero d_half)
            (stub_sampler d_0_1 d_half)) = d_0_1
   \<and> \<not> isnan d_0_1 \<and> 0 \<le> valof d_0_1
   \<and> \<not> isnan d_half \<and> 0 \<le> valof d_half \<and> valof d_half < 1
   \<and> dle (dmul d_0_1 (dsub d_one d_half))
       (epsilon (sample_stepsize (stub_collaborators d_zero d_zero d_half)
                   (stub_sampler d_0_1 d_half)))
   \<and> dle (epsilon (sample_stepsize (stub_collaborators d_zero d_zero d_half)
                   (stub_sampler d_0_1 d_half)))
       (dmul d_0_1 (dadd d_one d_half))"
proof -
  let ?C = "stub_collaborators d_zero d_zero d_half"
  let ?s0 = "stub_sampler d_0_1 d_zero"
  let ?s1 = "stub_sampler d_0_1 d_half"
  note t0 = sample_stepsize_spec [of ?C ?s0]
  note t1 = sample_stepsize_spec [of ?C ?s1]
  have j0: "deq (epsilon_jitter ?s0) d_zero"
    by (simp add: stub_sampler_fields deq_zero_iff isnan_consts valof_consts)
  have j1: "\<not> deq (epsilon_jitter ?s1) d_zero"
    by (simp add: stub_sampler_fields deq_zero_iff isnan_consts valof_consts)
  have h: "\<not> isnan d_0_1" "0 \<le> valof d_0_1" "\<not> isnan d_half" "0 \<le> valof d_half"
    "valof d_half < 1" "valof d_half \<le> 1"
    by (simp_all add: isnan_consts valof_consts valof_0_1)
  have f: "nom_epsilon ?s0 = d_0_1" "nom_epsilon ?s1 = d_0_1" "epsilon_jitter ?s1 = d_half"
    "fst (rand_uniform ?C (env ?s1)) = d_half" "snd (rand_uniform ?C (env ?s1)) = 1"
    by (simp_all add: stub_sampler_fields stub_rand_uniform)
  from t0 j0 have a: "sample_stepsize ?C ?s0 = ?s0\<lparr>epsilon := nom_epsilon ?s0\<rparr>" by blast
  from t1 have n: "nom_epsilon (sample_stepsize ?C ?s1) = nom_epsilon ?s1" by blast
  from t1 j1 have "sample_stepsize ?C ?s1 =
      ?s1\<lparr>epsilon :=
            dmul (nom_epsilon ?s1)
              (dadd d_one
                 (dmul (epsilon_jitter ?s1)
                    (dsub (dmul d_two (fst (rand_uniform ?C (env ?s1)))) d_one))),
          env := snd (rand_uniform ?C (env ?s1))\<rparr>"
    by blast
  then have e: "env (sample_stepsize ?C ?s1) = 1" by (simp add: f)
  have "dle (dmul (nom_epsilon ?s1) (dsub d_one (epsilon_jitter ?s1)))
          (epsilon (sample_stepsize ?C ?s1)) \<and>
        dle (epsilon (sample_stepsize ?C ?s1))
          (dmul (nom_epsilon ?s1) (dadd d_one (epsilon_jitter ?s1)))"
    using t1 h unfolding f by blast
  then have b: "dle (dmul d_0_1 (dsub d_one d_half)) (epsilon (sample_stepsize ?C ?s1))"
    "dle (epsilon (sample_stepsize ?C ?s1)) (dmul d_0_1 (dadd d_one d_half))"
    by (simp_all only: f)
  from j0 j1 a n e h b show ?thesis by (simp only: f simp_thms)
qed

text \<open>The evaluation of \<^verbatim>\<open>sample_stepsize\<close> at a draw just below one, step by step.\<close>

lemma round_eval:
  assumes "2 ^ n \<le> M" and "M < 2 ^ Suc n"
  shows "round_to_double s M E =
     pack s (min (nat (max (int (Suc n) + E - 53) (- 1074) + 1074) * 2 ^ 52 +
        (if max (int (Suc n) + E - 53) (- 1074) \<le> E
         then M * 2 ^ nat (E - max (int (Suc n) + E - 53) (- 1074))
         else rne_shift M (nat (max (int (Suc n) + E - 53) (- 1074) - E)))) inf_bits)"
proof -
  have "0 < M" using assms(1) by (cases "M = 0") simp_all
  moreover have "floorlog 2 M = Suc n" using assms by (rule floorlog2_eq)
  ultimately show ?thesis
    by (simp add: round_to_double_def quantum_exp_def significand_def Let_def)
qed

lemma below_one_fields:
  "mant d_below_one = 2 ^ 53 - 1" "expo d_below_one = - 53" "\<not> sign_bit d_below_one"
  "\<not> isnan d_below_one" "\<not> is_inf d_below_one" "\<not> is_zero d_below_one"
  by (simp_all add: field_defs isnan_def is_inf_def is_zero_def d_below_one_def)

lemma jitter_step1: "dmul d_two d_below_one = 0x3FFFFFFFFFFFFFFF"
proof -
  have r: "round_to_double False (2 ^ 52 * (2 ^ 53 - 1)) (- 104) = 0x3FFFFFFFFFFFFFFF"
    by (subst round_eval [of 104]) (simp_all add: pack_def rne_shift_def inf_bits_def)
  show ?thesis
    by (simp only: dmul_def below_one_fields two_fields isnan_consts r simp_thms if_False)
       (simp add: r [simplified])
qed

lemma jitter_step2: "dsub 0x3FFFFFFFFFFFFFFF d_one = 0x3FEFFFFFFFFFFFFE"
proof -
  have a: "mant (0x3FFFFFFFFFFFFFFF :: double) = 2 ^ 53 - 1"
    "expo (0x3FFFFFFFFFFFFFFF :: double) = - 52"
    "\<not> sign_bit (0x3FFFFFFFFFFFFFFF :: double)" "\<not> isnan (0x3FFFFFFFFFFFFFFF :: double)"
    "\<not> is_inf (0x3FFFFFFFFFFFFFFF :: double)"
    by (simp_all add: field_defs isnan_def is_inf_def)
  have b: "mant (dneg d_one) = 2 ^ 52" "expo (dneg d_one) = - 52" "sign_bit (dneg d_one)"
    "\<not> isnan (dneg d_one)" "\<not> is_inf (dneg d_one)"
    by (simp_all add: dneg_fields sign_bit_dneg)
      (simp_all add: field_defs isnan_def is_inf_def d_one_def)
  have r: "round_to_double False (2 ^ 52 - 1) (- 52) = 0x3FEFFFFFFFFFFFFE"
    by (subst round_eval [of 51]) (simp_all add: pack_def rne_shift_def inf_bits_def)
  show ?thesis
    using r by (simp add: dsub_def dadd_def signed_mant_def a b Let_def)
qed

lemma jitter_step3: "dmul d_half 0x3FEFFFFFFFFFFFFE = 0x3FDFFFFFFFFFFFFE"
proof -
  have a: "mant (0x3FEFFFFFFFFFFFFE :: double) = 2 ^ 53 - 2"
    "expo (0x3FEFFFFFFFFFFFFE :: double) = - 53"
    "\<not> sign_bit (0x3FEFFFFFFFFFFFFE :: double)" "\<not> isnan (0x3FEFFFFFFFFFFFFE :: double)"
    "\<not> is_inf (0x3FEFFFFFFFFFFFFE :: double)" "\<not> is_zero (0x3FEFFFFFFFFFFFFE :: double)"
    by (simp_all add: field_defs isnan_def is_inf_def is_zero_def)
  have r: "round_to_double False (2 ^ 52 * (2 ^ 53 - 2)) (- 106) = 0x3FDFFFFFFFFFFFFE"
    by (subst round_eval [of 104]) (simp_all add: pack_def rne_shift_def inf_bits_def)
  show ?thesis
    using r by (simp add: dmul_def a half_fields isnan_consts)
qed

lemma jitter_step4: "dadd d_one 0x3FDFFFFFFFFFFFFE = 0x3FF8000000000000"
proof -
  have a: "mant (0x3FDFFFFFFFFFFFFE :: double) = 2 ^ 53 - 2"
    "expo (0x3FDFFFFFFFFFFFFE :: double) = - 54"
    "\<not> sign_bit (0x3FDFFFFFFFFFFFFE :: double)" "\<not> isnan (0x3FDFFFFFFFFFFFFE :: double)"
    "\<not> is_inf (0x3FDFFFFFFFFFFFFE :: double)"
    by (simp_all add: field_defs isnan_def is_inf_def)
  have b: "mant d_one = 2 ^ 52" "expo d_one = - 52" "\<not> sign_bit d_one" "\<not> is_inf d_one"
    by (simp_all add: field_defs is_inf_def d_one_def)
  have r: "round_to_double False (2 ^ 54 + 2 ^ 53 - 2) (- 54) = 0x3FF8000000000000"
    by (subst round_eval [of 54]) (simp_all add: pack_def rne_shift_def inf_bits_def)
  show ?thesis
    using r by (simp add: dadd_def signed_mant_def a b isnan_consts Let_def)
qed

lemma jitter_step5: "dmul d_0_1 0x3FF8000000000000 = 0x3FC3333333333334"
proof -
  have a: "mant (0x3FF8000000000000 :: double) = 3 * 2 ^ 51"
    "expo (0x3FF8000000000000 :: double) = - 52"
    "\<not> sign_bit (0x3FF8000000000000 :: double)" "\<not> isnan (0x3FF8000000000000 :: double)"
    "\<not> is_inf (0x3FF8000000000000 :: double)" "\<not> is_zero (0x3FF8000000000000 :: double)"
    by (simp_all add: field_defs isnan_def is_inf_def is_zero_def)
  have b: "mant d_0_1 = 7205759403792794" "expo d_0_1 = - 56" "\<not> sign_bit d_0_1"
    "\<not> is_inf d_0_1" "\<not> is_zero d_0_1"
    by (simp_all add: field_defs is_inf_def is_zero_def d_0_1_def)
  have r: "round_to_double False (7205759403792794 * (3 * 2 ^ 51)) (- 108) = 0x3FC3333333333334"
    by (subst round_eval [of 105]) (simp_all add: pack_def rne_shift_def inf_bits_def)
  show ?thesis
    using r by (simp add: dmul_def a b isnan_consts)
qed

lemma jitter_run:
  "epsilon (sample_stepsize (stub_collaborators d_zero d_zero d_below_one)
      (stub_sampler d_0_1 d_half)) = 0x3FC3333333333334"
proof -
  have "\<not> deq d_half d_zero" by (simp add: deq_zero_iff valof_consts)
  then show ?thesis
    by (simp add: sample_stepsize_eq stub_sampler_fields stub_rand_uniform jitter_step1
        jitter_step2 jitter_step3 jitter_step4 jitter_step5)
qed

text \<open>
  With the ends taken as exact real numbers the bound of C6 fails by a rounding: for the
  nominal step size \<^verbatim>\<open>0.1\<close>, the jitter \<^verbatim>\<open>0.5\<close> and the draw \<open>1 - 2 ^ - 53\<close> the factor
  \<open>1 + j * (2 * u - 1)\<close> rounds to \<^verbatim>\<open>1.5\<close>, and the product of \<^verbatim>\<open>0.1\<close> and \<^verbatim>\<open>1.5\<close> rounds
  up, above the exact \<open>nominal * (1 + j)\<close>.
\<close>

theorem jitter_exceeds_exact_bound:
  "\<not> isnan d_below_one \<and> 0 \<le> valof d_below_one \<and> valof d_below_one < 1
   \<and> fst (rand_uniform (stub_collaborators d_zero d_zero d_below_one)
            (env (stub_sampler d_0_1 d_half))) = d_below_one
   \<and> valof (nom_epsilon (stub_sampler d_0_1 d_half))
       * (1 + valof (epsilon_jitter (stub_sampler d_0_1 d_half)))
     < valof (epsilon (sample_stepsize (stub_collaborators d_zero d_zero d_below_one)
                 (stub_sampler d_0_1 d_half)))"
proof -
  have "valof d_below_one = 9007199254740991 / 9007199254740992"
    by (simp add: valof_def field_defs d_below_one_def)
  moreover have "valof (0x3FC3333333333334 :: double) = 5404319552844596 / 36028797018963968"
    by (simp add: valof_def field_defs)
  ultimately show ?thesis
    by (simp add: jitter_run stub_sampler_fields stub_rand_uniform below_one_fields valof_0_1
        valof_consts)
qed

section \<open>The writer's constructor and its write operations\<close>

lemma data_r_vector_unconstrain: "data_r (vector_unconstrain y w) = data_r w @ y"
  by (induction y arbitrary: w) (simp_all add: push_back_def)

lemma data_i_vector_unconstrain: "data_i (vector_unconstrain y w) = data_i w"
  by (induction y arbitrary: w) simp_all


































end
